theory Spec2Isabelle
  imports Main "HOL-Library.AList"
begin

section \<open>The colour service: data model\<close>

text \<open>
  The embedded code is \<^verbatim>\<open>src/services/colorApi.js\<close>: the module-level
  \<^verbatim>\<open>cache\<close>, \<^verbatim>\<open>fetchColorData\<close> and \<^verbatim>\<open>fetchDistinctColors\<close> with
  its inner helper \<^verbatim>\<open>fetchBatch\<close>.

  A cache key is the string \<^verbatim>\<open>`${hue},${saturation},${lightness}`\<close>. For numbers the
  comma-separated decimal rendering is injective, so the key is modelled as the triple
  itself. Hues are the non-negative integers the engine generates; saturation and
  lightness are passed through unchanged.
\<close>

type_synonym key = "nat \<times> int \<times> int"

record rgb_channels =
  red :: "int option"
  green :: "int option"
  blue :: "int option"

text \<open>The object \<^verbatim>\<open>colorData\<close> built by \<^verbatim>\<open>fetchColorData\<close>.\<close>

record colorData =
  hue :: nat
  saturation :: int
  lightness :: int
  name :: string
  rgb :: rgb_channels
  hex :: "string option"
  hsl :: "string option"

text \<open>
  The JSON document of the remote service, as far as the code reads it. A field that is
  an object (\<^verbatim>\<open>data.rgb\<close>, \<^verbatim>\<open>data.name\<close>, \<^verbatim>\<open>data.hex\<close>, \<^verbatim>\<open>data.hsl\<close>) is
  \<open>None\<close> when it is missing; its leaf (\<^verbatim>\<open>.value\<close>, \<^verbatim>\<open>.r\<close>) is \<open>None\<close> when
  \<^verbatim>\<open>undefined\<close>.
\<close>

record rgb_json =
  rgb_r :: "int option"
  rgb_g :: "int option"
  rgb_b :: "int option"

record apiData =
  data_rgb :: "rgb_json option"
  data_name :: "string option option"
  data_hex :: "string option option"
  data_hsl :: "string option option"

datatype jsonBody = JsonSyntaxError | JsonNull | JsonData apiData

text \<open>
  What \<^verbatim>\<open>await fetch(url, { signal })\<close> followed by \<^verbatim>\<open>response.json()\<close> can give:
  the promise rejects with an \<^verbatim>\<open>AbortError\<close> when the signal is aborted before the
  response has arrived, it rejects on a network failure, or it resolves to a response
  with a status and a body. The signal is used nowhere else in the module: it is handed
  to \<^verbatim>\<open>fetch\<close> and never read. The environment of a call, remote service and signal
  together, is therefore a function from the key of a request to its outcome; a signal
  that has fired shows as the outcome \<open>Aborted\<close>, and a signal that was aborted before
  the call as the remote \<open>cancelled\<close> below, which aborts every request.
\<close>

datatype fetchOutcome = Aborted | NetworkFailure | Response nat jsonBody

type_synonym remote = "key \<Rightarrow> fetchOutcome"

datatype error =
  AbortError | NetworkError | ApiError nat | InvalidStructure | JsonError | TypeError

text \<open>\<^verbatim>\<open>response.ok\<close>: the status is in the range 200 to 299.\<close>

definition response_ok :: "nat \<Rightarrow> bool" where
  "response_ok status = (200 \<le> status \<and> status \<le> 299)"

text \<open>\<^verbatim>\<open>data.name.value || 'Unnamed'\<close>: a missing or empty string is falsy.\<close>

definition nameOrUnnamed :: "string option \<Rightarrow> string" where
  "nameOrUnnamed v = (case v of None \<Rightarrow> ''Unnamed'' | Some n \<Rightarrow> if n = [] then ''Unnamed'' else n)"

text \<open>
  The body of the \<^verbatim>\<open>try\<close> block of \<^verbatim>\<open>fetchColorData\<close> after the request has
  been sent: status check, structure check, construction of \<^verbatim>\<open>colorData\<close>. Reading
  \<^verbatim>\<open>data.hex.value\<close> or \<^verbatim>\<open>data.hsl.value\<close> of a missing object throws a
  \<^verbatim>\<open>TypeError\<close>. The \<^verbatim>\<open>catch\<close> block rethrows every error.
\<close>

definition colorDataOf :: "nat \<Rightarrow> int \<Rightarrow> int \<Rightarrow> fetchOutcome \<Rightarrow> error + colorData" where
  "colorDataOf h s l out =
    (case out of
       Aborted \<Rightarrow> Inl AbortError
     | NetworkFailure \<Rightarrow> Inl NetworkError
     | Response status body \<Rightarrow>
         if \<not> response_ok status then Inl (ApiError status)
         else (case body of
            JsonSyntaxError \<Rightarrow> Inl JsonError
          | JsonNull \<Rightarrow> Inl InvalidStructure
          | JsonData d \<Rightarrow>
             (case data_rgb d of
                None \<Rightarrow> Inl InvalidStructure
              | Some c \<Rightarrow>
                 (case data_name d of
                    None \<Rightarrow> Inl InvalidStructure
                  | Some nv \<Rightarrow>
                     (case data_hex d of
                        None \<Rightarrow> Inl TypeError
                      | Some hx \<Rightarrow>
                         (case data_hsl d of
                            None \<Rightarrow> Inl TypeError
                          | Some hs \<Rightarrow>
                              Inr \<lparr> hue = h, saturation = s, lightness = l,
                                    name = nameOrUnnamed nv,
                                    rgb = \<lparr> red = rgb_r c, green = rgb_g c, blue = rgb_b c \<rparr>,
                                    hex = hx, hsl = hs \<rparr>))))))"

section \<open>The cache and a single lookup\<close>

text \<open>
  The module state: the \<^verbatim>\<open>cache\<close> map, and the log of the requests handed to
  \<^verbatim>\<open>fetch\<close>, which is how remote lookups are counted.
\<close>

record state =
  cache :: "key \<rightharpoonup> colorData"
  calls :: "key list"

text \<open>
  \<^verbatim>\<open>fetchColorData\<close> is an async function with one suspension point that matters,
  \<^verbatim>\<open>await fetch(...)\<close>. Up to it the call runs synchronously: it returns the cached
  value, or sends the request. After it the call settles: it throws, or writes the cache
  with \<^verbatim>\<open>cache.set(cacheKey, colorData)\<close> and returns.
\<close>

datatype pending = Resolved colorData | InFlight nat int int

definition fetchColorData_start :: "nat \<Rightarrow> int \<Rightarrow> int \<Rightarrow> state \<Rightarrow> pending \<times> state" where
  "fetchColorData_start h s l st =
    (case cache st (h, s, l) of
       Some c \<Rightarrow> (Resolved c, st)
     | None \<Rightarrow> (InFlight h s l, st\<lparr>calls := calls st @ [(h, s, l)]\<rparr>))"

definition fetchColorData_settle :: "remote \<Rightarrow> pending \<Rightarrow> state \<Rightarrow> (error + colorData) \<times> state" where
  "fetchColorData_settle rem p st =
    (case p of
       Resolved c \<Rightarrow> (Inr c, st)
     | InFlight h s l \<Rightarrow>
         (case colorDataOf h s l (rem (h, s, l)) of
            Inl e \<Rightarrow> (Inl e, st)
          | Inr cd \<Rightarrow> (Inr cd, st\<lparr>cache := (cache st)((h, s, l) \<mapsto> cd)\<rparr>)))"

text \<open>One call of \<^verbatim>\<open>fetchColorData\<close> run to completion with nothing in between.\<close>

definition fetchColorData :: "remote \<Rightarrow> nat \<Rightarrow> int \<Rightarrow> int \<Rightarrow> state \<Rightarrow> (error + colorData) \<times> state" where
  "fetchColorData rem h s l st =
    (case fetchColorData_start h s l st of (p, st1) \<Rightarrow> fetchColorData_settle rem p st1)"

text \<open>\<^verbatim>\<open>clearCache\<close>.\<close>

definition clearCache :: "state \<Rightarrow> state" where
  "clearCache st = st\<lparr>cache := Map.empty\<rparr>"

section \<open>Batches\<close>

text \<open>
  \<^verbatim>\<open>Promise.all(chunk.map(hue => fetchColorData(hue, ...)))\<close>: the synchronous part of
  every call runs first, in the order of the chunk, so every request of the chunk is sent
  before any of them settles; then the requests settle. The result is the list of the
  values, or a rejection. JavaScript reports the rejection that happens first in time; the
  model reports the first in the order of the chunk, and no property below depends on which
  of several rejections is reported. A rejected \<^verbatim>\<open>Promise.all\<close> does not stop the other
  requests of the chunk: they still settle and write the cache. The state returned is the
  one reached when every request of the chunk has settled.
\<close>

primrec startAll :: "int \<Rightarrow> int \<Rightarrow> nat list \<Rightarrow> state \<Rightarrow> pending list \<times> state" where
  "startAll s l [] st = ([], st)"
| "startAll s l (h # hs) st =
    (case fetchColorData_start h s l st of
       (p, st1) \<Rightarrow> (case startAll s l hs st1 of (ps, st2) \<Rightarrow> (p # ps, st2)))"

primrec settleAll :: "remote \<Rightarrow> pending list \<Rightarrow> state \<Rightarrow> (error + colorData) list \<times> state" where
  "settleAll rem [] st = ([], st)"
| "settleAll rem (p # ps) st =
    (case fetchColorData_settle rem p st of
       (r, st1) \<Rightarrow> (case settleAll rem ps st1 of (rs, st2) \<Rightarrow> (r # rs, st2)))"

primrec allOrRejection :: "(error + colorData) list \<Rightarrow> error + colorData list" where
  "allOrRejection [] = Inr []"
| "allOrRejection (r # rs) =
    (case r of
       Inl e \<Rightarrow> Inl e
     | Inr c \<Rightarrow> (case allOrRejection rs of Inl e \<Rightarrow> Inl e | Inr cs \<Rightarrow> Inr (c # cs)))"

definition promiseAll :: "remote \<Rightarrow> int \<Rightarrow> int \<Rightarrow> nat list \<Rightarrow> state \<Rightarrow> (error + colorData list) \<times> state" where
  "promiseAll rem s l chunk st =
    (case startAll s l chunk st of
       (ps, st1) \<Rightarrow> (case settleAll rem ps st1 of (rs, st2) \<Rightarrow> (allOrRejection rs, st2)))"

definition BATCH_SIZE :: nat where
  "BATCH_SIZE = 20"

text \<open>
  The loop \<^verbatim>\<open>for (let i = 0; i < batch.length; i += BATCH_SIZE)\<close> of \<^verbatim>\<open>fetchBatch\<close>;
  \<^verbatim>\<open>batch.slice(i, i + BATCH_SIZE)\<close> is \<open>take BATCH_SIZE (drop i batch)\<close>. A rejected
  chunk ends the loop.
\<close>

function fetchChunks ::
  "remote \<Rightarrow> int \<Rightarrow> int \<Rightarrow> nat list \<Rightarrow> nat \<Rightarrow> colorData list \<Rightarrow> state \<Rightarrow> (error + colorData list) \<times> state" where
  "fetchChunks rem s l batch i results st =
    (if i < length batch then
       (case promiseAll rem s l (take BATCH_SIZE (drop i batch)) st of
          (Inl e, st1) \<Rightarrow> (Inl e, st1)
        | (Inr chunkResults, st1) \<Rightarrow>
            fetchChunks rem s l batch (i + BATCH_SIZE) (results @ chunkResults) st1)
     else (Inr results, st))"
  by pat_completeness auto
termination
  by (relation "measure (\<lambda>(rem, s, l, batch, i, results, st). length batch - i)")
     (auto simp: BATCH_SIZE_def)

declare fetchChunks.simps [simp del]

text \<open>
  \<^verbatim>\<open>colorsByHue\<close> is a JavaScript \<^verbatim>\<open>Map\<close>: insertion-ordered, and \<^verbatim>\<open>set\<close> on a
  present key replaces the value in place.
\<close>

type_synonym colorsByHue = "(nat \<times> colorData) list"

text \<open>
  The first loop of \<^verbatim>\<open>fetchBatch\<close>: an uncached hue is pushed on \<^verbatim>\<open>batch\<close>, a
  cached one goes into \<^verbatim>\<open>colorsByHue\<close> at once.
\<close>

primrec splitCached ::
  "int \<Rightarrow> int \<Rightarrow> (key \<rightharpoonup> colorData) \<Rightarrow> nat list \<Rightarrow> nat list \<times> colorsByHue \<Rightarrow> nat list \<times> colorsByHue" where
  "splitCached s l c [] acc = acc"
| "splitCached s l c (h # hs) acc =
    (case c (h, s, l) of
       None \<Rightarrow> splitCached s l c hs (fst acc @ [h], snd acc)
     | Some cached \<Rightarrow> splitCached s l c hs (fst acc, AList.update h cached (snd acc)))"

definition fetchBatch ::
  "remote \<Rightarrow> int \<Rightarrow> int \<Rightarrow> nat list \<Rightarrow> colorsByHue \<Rightarrow> state \<Rightarrow> (error + colorsByHue) \<times> state" where
  "fetchBatch rem s l hues cbh st =
    (case splitCached s l (cache st) hues ([], cbh) of
       (batch, cbh1) \<Rightarrow>
         if batch = [] then (Inr cbh1, st)
         else (case fetchChunks rem s l batch 0 [] st of
                 (Inl e, st1) \<Rightarrow> (Inl e, st1)
               | (Inr results, st1) \<Rightarrow>
                   (Inr (fold (\<lambda>color. AList.update (hue color) color) results cbh1), st1)))"

section \<open>The four phases of fetchDistinctColors\<close>

text \<open>Phase 1: \<^verbatim>\<open>for (let h = 0; h < 360; h += 10) coarseHues.push(h)\<close>.\<close>

function coarseFrom :: "nat \<Rightarrow> nat list" where
  "coarseFrom h = (if h < 360 then h # coarseFrom (h + 10) else [])"
  by pat_completeness auto
termination
  by (relation "measure (\<lambda>h. 360 - h)") auto

declare coarseFrom.simps [simp del]

definition coarseHues :: "nat list" where
  "coarseHues = coarseFrom 0"

text \<open>Phase 2: the boundary test of one adjacent pair, and the walk over all pairs.\<close>

record boundaryRange =
  range_start :: nat
  range_end :: nat

definition boundaryAt :: "colorsByHue \<Rightarrow> nat list \<Rightarrow> nat \<Rightarrow> boundaryRange list" where
  "boundaryAt cbh hs i =
    (let currentHue = hs ! i;
         nextHue = hs ! ((i + 1) mod length hs)
     in case (map_of cbh currentHue, map_of cbh nextHue) of
          (Some currentColor, Some nextColor) \<Rightarrow>
            if name currentColor \<noteq> ''Unnamed'' \<and> name currentColor \<noteq> name nextColor
            then [\<lparr> range_start = currentHue, range_end = nextHue \<rparr>]
            else []
        | _ \<Rightarrow> [])"

definition boundaryRanges :: "colorsByHue \<Rightarrow> boundaryRange list" where
  "boundaryRanges cbh = concat (map (boundaryAt cbh coarseHues) [0..<length coarseHues])"

text \<open>
  Phase 3, the hues of one range: \<^verbatim>\<open>if (end < start) end += 360\<close>, then
  \<^verbatim>\<open>for (let h = start + 1; h < end; h++) fillHues.push(h % 360)\<close>.
\<close>

function fillFrom :: "nat \<Rightarrow> nat \<Rightarrow> nat list" where
  "fillFrom h e = (if h < e then (h mod 360) # fillFrom (h + 1) e else [])"
  by pat_completeness auto
termination
  by (relation "measure (\<lambda>(h, e). e - h)") auto

declare fillFrom.simps [simp del]

definition fillHues :: "boundaryRange \<Rightarrow> nat list" where
  "fillHues r =
    (let start = range_start r;
         e = (if range_end r < start then range_end r + 360 else range_end r)
     in fillFrom (start + 1) e)"

primrec refineRanges ::
  "remote \<Rightarrow> int \<Rightarrow> int \<Rightarrow> boundaryRange list \<Rightarrow> colorsByHue \<Rightarrow> state \<Rightarrow> (error + colorsByHue) \<times> state" where
  "refineRanges rem s l [] cbh st = (Inr cbh, st)"
| "refineRanges rem s l (r # rs) cbh st =
    (if fillHues r \<noteq> [] then
       (case fetchBatch rem s l (fillHues r) cbh st of
          (Inl e, st1) \<Rightarrow> (Inl e, st1)
        | (Inr cbh1, st1) \<Rightarrow> refineRanges rem s l rs cbh1 st1)
     else refineRanges rem s l rs cbh st)"

text \<open>
  Phase 4: the keys sorted ascending, then one pass with \<^verbatim>\<open>seenNames\<close> and
  \<^verbatim>\<open>distinctColors\<close>. Every hue of the pass is a key of the map, so
  \<^verbatim>\<open>colorsByHue.get(hue)\<close> is defined.
\<close>

definition sortedHues :: "colorsByHue \<Rightarrow> nat list" where
  "sortedHues cbh = sort (map fst cbh)"

primrec collectFrom ::
  "colorsByHue \<Rightarrow> nat list \<Rightarrow> string set \<times> colorData list \<Rightarrow> string set \<times> colorData list" where
  "collectFrom cbh [] acc = acc"
| "collectFrom cbh (h # hs) acc =
    (case map_of cbh h of
       None \<Rightarrow> collectFrom cbh hs acc
     | Some color \<Rightarrow>
         if name color = [] \<or> name color = ''Unnamed'' then collectFrom cbh hs acc
         else if name color \<notin> fst acc
              then collectFrom cbh hs (insert (name color) (fst acc), snd acc @ [color])
              else collectFrom cbh hs acc)"

definition collectDistinct :: "colorsByHue \<Rightarrow> colorData list" where
  "collectDistinct cbh = snd (collectFrom cbh (sortedHues cbh) ({}, []))"

text \<open>Phases 1 to 3: the map \<^verbatim>\<open>colorsByHue\<close> of all resolved points.\<close>

definition resolveHues :: "remote \<Rightarrow> int \<Rightarrow> int \<Rightarrow> state \<Rightarrow> (error + colorsByHue) \<times> state" where
  "resolveHues rem s l st =
    (case fetchBatch rem s l coarseHues [] st of
       (Inl e, st1) \<Rightarrow> (Inl e, st1)
     | (Inr cbh1, st1) \<Rightarrow> refineRanges rem s l (boundaryRanges cbh1) cbh1 st1)"

definition fetchDistinctColors :: "remote \<Rightarrow> int \<Rightarrow> int \<Rightarrow> state \<Rightarrow> (error + colorData list) \<times> state" where
  "fetchDistinctColors rem s l st =
    (case resolveHues rem s l st of
       (Inl e, st1) \<Rightarrow> (Inl e, st1)
     | (Inr cbh, st1) \<Rightarrow> (Inr (collectDistinct cbh), st1))"

section \<open>Notions used to state the properties\<close>

text \<open>
  The result of one remote lookup as \<^verbatim>\<open>fetchColorData\<close> computes it once the request
  is in flight (\<open>lookup\<close>), what a lookup leaves in the cache (\<open>stored\<close>), and the first
  rejection among a list of lookups taken in the order in which they were sent.

  \<open>extends rem st st' new\<close> relates the state before and after a piece of the engine that
  sent exactly the requests \<open>new\<close>: the log grew by \<open>new\<close>, none of these keys was cached
  before, and the cache changed at these keys only, to what the lookup stores. \<open>outcome\<close>
  adds that no key was requested twice and that the error thrown, if any, is the first
  rejection.

  \<open>cachedCoarse\<close> is the map \<^verbatim>\<open>colorsByHue\<close> that Phase 1 builds from a cache holding
  every coarse point; \<open>neededHues\<close> lists the coarse points and the interior points of the
  boundary ranges that Phase 2 then finds. \<open>collectStep\<close> is the body of the Phase 4 loop for
  one colour, and \<open>outputOf\<close> runs Phase 4 over the needed points of a cache.
  \<open>cacheNamed\<close> says that no cached colour has an empty name.
\<close>

definition lookup :: "remote \<Rightarrow> key \<Rightarrow> error + colorData" where
  "lookup rem k = (case k of (h, s, l) \<Rightarrow> colorDataOf h s l (rem (h, s, l)))"

definition stored :: "remote \<Rightarrow> key \<Rightarrow> colorData option" where
  "stored rem k = (case lookup rem k of Inl e \<Rightarrow> None | Inr cd \<Rightarrow> Some cd)"

primrec firstError :: "remote \<Rightarrow> key list \<Rightarrow> error option" where
  "firstError rem [] = None"
| "firstError rem (k # ks) = (case lookup rem k of Inl e \<Rightarrow> Some e | Inr cd \<Rightarrow> firstError rem ks)"

definition extends :: "remote \<Rightarrow> state \<Rightarrow> state \<Rightarrow> key list \<Rightarrow> bool" where
  "extends rem st st' new \<longleftrightarrow>
     calls st' = calls st @ new \<and> (\<forall>k\<in>set new. cache st k = None) \<and>
     cache st' = (\<lambda>k. if k \<in> set new then stored rem k else cache st k)"

definition outcome :: "remote \<Rightarrow> state \<Rightarrow> error option \<Rightarrow> state \<Rightarrow> key list \<Rightarrow> bool" where
  "outcome rem st err st' new \<longleftrightarrow>
     extends rem st st' new \<and> distinct new \<and> firstError rem new = err"

definition errorOf :: "error + 'a \<Rightarrow> error option" where
  "errorOf res = (case res of Inl e \<Rightarrow> Some e | Inr x \<Rightarrow> None)"

definition cachedCoarse :: "int \<Rightarrow> int \<Rightarrow> (key \<rightharpoonup> colorData) \<Rightarrow> colorsByHue" where
  "cachedCoarse s l c = snd (splitCached s l c coarseHues ([], []))"

definition neededHues :: "int \<Rightarrow> int \<Rightarrow> (key \<rightharpoonup> colorData) \<Rightarrow> nat list" where
  "neededHues s l c = coarseHues @ concat (map fillHues (boundaryRanges (cachedCoarse s l c)))"

definition collectStep :: "colorData \<Rightarrow> string set \<times> colorData list \<Rightarrow> string set \<times> colorData list" where
  "collectStep color acc =
    (if name color = [] \<or> name color = ''Unnamed'' then acc
     else if name color \<notin> fst acc then (insert (name color) (fst acc), snd acc @ [color])
     else acc)"

definition outputOf :: "int \<Rightarrow> int \<Rightarrow> (key \<rightharpoonup> colorData) \<Rightarrow> colorData list" where
  "outputOf s l c =
    snd (fold collectStep (map (\<lambda>h. the (c (h, s, l))) (sort (remdups (neededHues s l c)))) ({}, []))"

definition cacheNamed :: "state \<Rightarrow> bool" where
  "cacheNamed st \<longleftrightarrow> (\<forall>k c. cache st k = Some c \<longrightarrow> name c \<noteq> [])"

text \<open>
  Interleavings. Between two lookups the page can start further lookups, lookups that
  were started earlier can settle (each with the answer of its own request), and the
  cache can be cleared. An event is one such atomic step; \<open>runEvents\<close> applies a
  sequence of them in order. An event disturbs a key when it can change what the cache
  holds for that key once it is present: the settling of a request for that key, or
  \<^verbatim>\<open>clearCache\<close>.
\<close>

datatype event = Begin nat int int | Settle remote pending | Clear

definition step :: "event \<Rightarrow> state \<Rightarrow> state" where
  "step e st =
    (case e of
       Begin h s l \<Rightarrow> snd (fetchColorData_start h s l st)
     | Settle rem p \<Rightarrow> snd (fetchColorData_settle rem p st)
     | Clear \<Rightarrow> clearCache st)"

definition runEvents :: "event list \<Rightarrow> state \<Rightarrow> state" where
  "runEvents evs st = fold step evs st"

definition disturbs :: "key \<Rightarrow> event \<Rightarrow> bool" where
  "disturbs k e =
    (case e of
       Begin h s l \<Rightarrow> False
     | Settle rem p \<Rightarrow> (case p of Resolved c \<Rightarrow> False | InFlight h s l \<Rightarrow> (h, s, l) = k)
     | Clear \<Rightarrow> True)"

section \<open>Example inputs\<close>

text \<open>
  Concrete remotes and cache states on which the properties below are exercised. All use
  saturation 50 and lightness 50. \<open>twoTone\<close> names the hues below 15 red and the others
  orange, so that the coarse points 0 and 10 are red and the coarse points from 20 on are orange.
\<close>

definition cancelled :: remote where
  "cancelled k = Aborted"

definition sampleColor :: "nat \<Rightarrow> string \<Rightarrow> colorData" where
  "sampleColor h n = \<lparr> hue = h, saturation = 50, lightness = 50, name = n,
     rgb = \<lparr> red = None, green = None, blue = None \<rparr>, hex = None, hsl = None \<rparr>"

definition okResponse :: "string \<Rightarrow> fetchOutcome" where
  "okResponse n = Response 200 (JsonData \<lparr> data_rgb = Some \<lparr> rgb_r = None, rgb_g = None, rgb_b = None \<rparr>,
      data_name = Some (Some n), data_hex = Some None, data_hsl = Some None \<rparr>)"

definition twoTone :: "nat \<Rightarrow> string" where
  "twoTone h = (if h < 15 then ''Red'' else ''Orange'')"

definition twoToneRemote :: remote where
  "twoToneRemote k = okResponse (twoTone (fst k))"

definition twoToneState :: state where
  "twoToneState = \<lparr> cache = (\<lambda>k. if snd k = (50, 50) \<and> fst k < 360 then Some (sampleColor (fst k) (twoTone (fst k))) else None),
                    calls = [] \<rparr>"

definition coarseState :: state where
  "coarseState = \<lparr> cache = (\<lambda>k. if snd k = (50, 50) \<and> fst k < 360 \<and> fst k mod 10 = 0
                                then Some (sampleColor (fst k) (twoTone (fst k))) else None),
                    calls = [] \<rparr>"

definition emptyState :: state where
  "emptyState = \<lparr> cache = Map.empty, calls = [] \<rparr>"

definition abortFrom15 :: remote where
  "abortFrom15 k = (if fst k < 15 then okResponse (twoTone (fst k)) else Aborted)"

definition failAt15 :: remote where
  "failAt15 k = (if fst k = 15 then Response 500 JsonNull else okResponse (twoTone (fst k)))"

definition abortedState :: state where
  "abortedState = coarseState\<lparr>
     calls := [(11, 50, 50), (12, 50, 50), (13, 50, 50), (14, 50, 50), (15, 50, 50), (16, 50, 50),
               (17, 50, 50), (18, 50, 50), (19, 50, 50)],
     cache := (cache coarseState)((11, 50, 50) \<mapsto> sampleColor 11 ''Red'', (12, 50, 50) \<mapsto> sampleColor 12 ''Red'',
                  (13, 50, 50) \<mapsto> sampleColor 13 ''Red'', (14, 50, 50) \<mapsto> sampleColor 14 ''Red'') \<rparr>"

definition failedState :: state where
  "failedState = coarseState\<lparr>
     calls := [(11, 50, 50), (12, 50, 50), (13, 50, 50), (14, 50, 50), (15, 50, 50), (16, 50, 50),
               (17, 50, 50), (18, 50, 50), (19, 50, 50)],
     cache := (cache coarseState)((11, 50, 50) \<mapsto> sampleColor 11 ''Red'', (12, 50, 50) \<mapsto> sampleColor 12 ''Red'',
                  (13, 50, 50) \<mapsto> sampleColor 13 ''Red'', (14, 50, 50) \<mapsto> sampleColor 14 ''Red'',
                  (16, 50, 50) \<mapsto> sampleColor 16 ''Orange'', (17, 50, 50) \<mapsto> sampleColor 17 ''Orange'',
                  (18, 50, 50) \<mapsto> sampleColor 18 ''Orange'', (19, 50, 50) \<mapsto> sampleColor 19 ''Orange'') \<rparr>"

definition refinedState :: state where
  "refinedState = coarseState\<lparr>
     calls := [(11, 50, 50), (12, 50, 50), (13, 50, 50), (14, 50, 50), (15, 50, 50), (16, 50, 50),
               (17, 50, 50), (18, 50, 50), (19, 50, 50),
               (351, 50, 50), (352, 50, 50), (353, 50, 50), (354, 50, 50), (355, 50, 50), (356, 50, 50),
               (357, 50, 50), (358, 50, 50), (359, 50, 50)],
     cache := (cache coarseState)((11, 50, 50) \<mapsto> sampleColor 11 ''Red'', (12, 50, 50) \<mapsto> sampleColor 12 ''Red'',
                  (13, 50, 50) \<mapsto> sampleColor 13 ''Red'', (14, 50, 50) \<mapsto> sampleColor 14 ''Red'',
                  (15, 50, 50) \<mapsto> sampleColor 15 ''Orange'',
                  (16, 50, 50) \<mapsto> sampleColor 16 ''Orange'', (17, 50, 50) \<mapsto> sampleColor 17 ''Orange'',
                  (18, 50, 50) \<mapsto> sampleColor 18 ''Orange'', (19, 50, 50) \<mapsto> sampleColor 19 ''Orange'',
                  (351, 50, 50) \<mapsto> sampleColor 351 ''Orange'', (352, 50, 50) \<mapsto> sampleColor 352 ''Orange'',
                  (353, 50, 50) \<mapsto> sampleColor 353 ''Orange'', (354, 50, 50) \<mapsto> sampleColor 354 ''Orange'',
                  (355, 50, 50) \<mapsto> sampleColor 355 ''Orange'', (356, 50, 50) \<mapsto> sampleColor 356 ''Orange'',
                  (357, 50, 50) \<mapsto> sampleColor 357 ''Orange'', (358, 50, 50) \<mapsto> sampleColor 358 ''Orange'',
                  (359, 50, 50) \<mapsto> sampleColor 359 ''Orange'') \<rparr>"

text \<open>
  A cache that holds every point of the two-tone domain but hue 15, and the state after
  the one lookup that completes it.
\<close>

definition almostState :: state where
  "almostState = \<lparr> cache = (\<lambda>k. if snd k = (50, 50) \<and> fst k < 360 \<and> fst k \<noteq> 15
                                then Some (sampleColor (fst k) (twoTone (fst k))) else None),
                    calls = [] \<rparr>"

definition completedState :: state where
  "completedState = almostState\<lparr>
     calls := [(15, 50, 50)],
     cache := (cache almostState)((15, 50, 50) \<mapsto> sampleColor 15 ''Orange'') \<rparr>"

text \<open>
  Coarse points whose service answer has no name at hue 10: red at 0, the sentinel at 10,
  blue from 20 on.
\<close>

definition unnamedTone :: "nat \<Rightarrow> string" where
  "unnamedTone h = (if h < 10 then ''Red'' else if h = 10 then ''Unnamed'' else ''Blue'')"

definition unnamedState :: state where
  "unnamedState = \<lparr> cache = (\<lambda>k. if snd k = (50, 50) \<and> fst k < 360 \<and> fst k mod 10 = 0
                                 then Some (sampleColor (fst k) (unnamedTone (fst k))) else None),
                     calls = [] \<rparr>"

text \<open>Two remotes that disagree on every hue, and one whose answers carry no name value.\<close>

definition redRemote :: remote where
  "redRemote k = okResponse ''Red''"

definition blueRemote :: remote where
  "blueRemote k = okResponse ''Blue''"

definition namelessRemote :: remote where
  "namelessRemote k = Response 200 (JsonData \<lparr> data_rgb = Some \<lparr> rgb_r = None, rgb_g = None, rgb_b = None \<rparr>,
      data_name = Some None, data_hex = Some None, data_hsl = Some None \<rparr>)"

section \<open>Basic facts\<close>

lemma coarseHues_eq: "coarseHues = map (\<lambda>i. 10 * i) [0..<36]"
  unfolding coarseHues_def by (simp add: coarseFrom.simps upt_rec)

subsection \<open>The hues of a range\<close>

lemma fillFrom_eq: "fillFrom h e = map (\<lambda>x. x mod 360) [h..<e]"
proof (induction h e rule: fillFrom.induct)
  case (1 h e)
  show ?case
  proof (cases "h < e")
    case True
    then have "fillFrom h e = (h mod 360) # fillFrom (h + 1) e"
      by (simp add: fillFrom.simps [of h e])
    also have "\<dots> = (h mod 360) # map (\<lambda>x. x mod 360) [h + 1..<e]" using 1 True by simp
    also have "\<dots> = map (\<lambda>x. x mod 360) [h..<e]" using True by (simp add: upt_conv_Cons)
    finally show ?thesis .
  next
    case False
    then show ?thesis by (simp add: fillFrom.simps [of h e])
  qed
qed

lemma map_mod_below: "e \<le> 360 \<Longrightarrow> map (\<lambda>x. x mod 360) [h..<e] = [h..<e]"
  by (induction e) auto

lemma map_mod_wrapped: "e \<le> 360 \<Longrightarrow> map (\<lambda>x. x mod 360) [360..<e + 360] = [0..<e]"
proof -
  assume e: "e \<le> 360"
  have "[360..<e + 360] = map (\<lambda>i. i + 360) [0..<e]"
    by (simp add: map_add_upt)
  then have "map (\<lambda>x. x mod 360) [360..<e + 360] = map (\<lambda>i. (i + 360) mod 360) [0..<e]"
    by (simp add: o_def)
  also have "\<dots> = map (\<lambda>i. i) [0..<e]"
    using e by (intro map_cong) auto
  finally show ?thesis by simp
qed

lemma fillHues_closed:
  assumes "range_start r < 360" and "range_end r < 360"
  shows "fillHues r =
    (if range_start r \<le> range_end r then [range_start r + 1..<range_end r]
     else [range_start r + 1..<360] @ [0..<range_end r])"
proof (cases "range_start r \<le> range_end r")
  case True
  then show ?thesis using assms by (simp add: fillHues_def fillFrom_eq map_mod_below)
next
  case False
  have "[range_start r + 1..<range_end r + 360] = [range_start r + 1..<360] @ [360..<range_end r + 360]"
    using assms upt_add_eq_append [of "range_start r + 1" 360 "range_end r"] by (simp add: add.commute)
  then show ?thesis using False assms
    by (simp add: fillHues_def fillFrom_eq map_mod_below map_mod_wrapped)
qed

subsection \<open>Lookups, cache extension and outcomes\<close>

lemma extends_refl: "extends rem st st []"
  by (simp add: extends_def)

lemma extends_trans:
  assumes "extends rem st st1 n1" and "extends rem st1 st2 n2"
  shows "extends rem st st2 (n1 @ n2)"
proof -
  have c: "cache st1 = (\<lambda>k. if k \<in> set n1 then stored rem k else cache st k)"
    and u1: "\<forall>k\<in>set n1. cache st k = None"
    using assms(1) by (simp_all add: extends_def)
  have c2: "cache st2 = (\<lambda>k. if k \<in> set n2 then stored rem k else cache st1 k)"
    and u2: "\<forall>k\<in>set n2. cache st1 k = None"
    using assms(2) by (simp_all add: extends_def)
  have "\<forall>k\<in>set n2. cache st k = None"
  proof
    fix k assume "k \<in> set n2"
    then have "cache st1 k = None" using u2 by blast
    then show "cache st k = None" using c u1 by (cases "k \<in> set n1") auto
  qed
  moreover have "cache st2 = (\<lambda>k. if k \<in> set (n1 @ n2) then stored rem k else cache st k)"
    unfolding c2 c by (rule ext) auto
  moreover have "calls st2 = calls st @ n1 @ n2"
    using assms by (simp add: extends_def)
  ultimately show ?thesis using u1 by (auto simp: extends_def)
qed

lemma extends_map_le: "extends rem st st' new \<Longrightarrow> cache st \<subseteq>\<^sub>m cache st'"
  by (auto simp: extends_def map_le_def)

lemma extends_unchanged: "extends rem st st' new \<Longrightarrow> k \<notin> set new \<Longrightarrow> cache st' k = cache st k"
  by (simp add: extends_def)

lemma firstError_append:
  "firstError rem (xs @ ys) = (case firstError rem xs of Some e \<Rightarrow> Some e | None \<Rightarrow> firstError rem ys)"
  by (induction xs) (auto split: sum.splits)

lemma firstError_None_iff: "firstError rem ks = None \<longleftrightarrow> (\<forall>k\<in>set ks. \<exists>cd. lookup rem k = Inr cd)"
  by (induction ks) (auto split: sum.splits)

lemma firstError_None_stored:
  "firstError rem ks = None \<Longrightarrow> k \<in> set ks \<Longrightarrow> stored rem k \<noteq> None"
  by (auto simp: firstError_None_iff stored_def)

lemma allOrRejection_lookup:
  "allOrRejection (map (lookup rem) ks) =
     (case firstError rem ks of Some e \<Rightarrow> Inl e | None \<Rightarrow> Inr (map (\<lambda>k. the (stored rem k)) ks))"
  by (induction ks) (auto simp: stored_def split: sum.splits option.splits)

lemma extends_success_cached:
  assumes "extends rem st st' new" and "firstError rem new = None" and "k \<in> set new"
  shows "cache st' k = stored rem k" and "cache st' k \<noteq> None"
proof -
  show a: "cache st' k = stored rem k" using assms(1,3) by (simp add: extends_def)
  show "cache st' k \<noteq> None" unfolding a using assms(2,3) by (rule firstError_None_stored)
qed

lemma outcome_trans:
  assumes o1: "outcome rem st None st1 n1" and o2: "outcome rem st1 err st2 n2"
  shows "outcome rem st err st2 (n1 @ n2)"
proof -
  have e1: "extends rem st st1 n1" and d1: "distinct n1" and f1: "firstError rem n1 = None"
    using o1 by (simp_all add: outcome_def)
  have e2: "extends rem st1 st2 n2" and d2: "distinct n2" and f2: "firstError rem n2 = err"
    using o2 by (simp_all add: outcome_def)
  have "set n1 \<inter> set n2 = {}"
  proof -
    { fix k assume k1: "k \<in> set n1" and k2: "k \<in> set n2"
      from extends_success_cached(2) [OF e1 f1 k1] have "cache st1 k \<noteq> None" .
      moreover from e2 k2 have "cache st1 k = None" by (simp add: extends_def)
      ultimately have False by simp }
    then show ?thesis by auto
  qed
  then have "distinct (n1 @ n2)" using d1 d2 by simp
  moreover have "extends rem st st2 (n1 @ n2)" using e1 e2 by (rule extends_trans)
  moreover have "firstError rem (n1 @ n2) = err"
    by (simp add: firstError_append f1 f2)
  ultimately show ?thesis by (simp add: outcome_def)
qed

lemma outcome_none: "outcome rem st None st []"
  by (simp add: outcome_def extends_refl)

subsection \<open>One chunk\<close>

lemma startAll_uncached:
  "\<forall>h\<in>set chunk. cache st (h, s, l) = None \<Longrightarrow>
   startAll s l chunk st =
     (map (\<lambda>h. InFlight h s l) chunk, st\<lparr>calls := calls st @ map (\<lambda>h. (h, s, l)) chunk\<rparr>)"
proof (induction chunk arbitrary: st)
  case Nil
  then show ?case by simp
next
  case (Cons h hs)
  let ?st1 = "st\<lparr>calls := calls st @ [(h, s, l)]\<rparr>"
  have "\<forall>x\<in>set hs. cache ?st1 (x, s, l) = None" using Cons.prems by simp
  from Cons.IH [OF this] show ?case using Cons.prems
    by (simp add: fetchColorData_start_def)
qed

lemma settleAll_inflight:
  "settleAll rem (map (\<lambda>h. InFlight h s l) chunk) st = (rs, st') \<Longrightarrow>
   rs = map (\<lambda>h. lookup rem (h, s, l)) chunk \<and> calls st' = calls st \<and>
   cache st' = (\<lambda>k. if k \<in> (\<lambda>h. (h, s, l)) ` set chunk \<and> stored rem k \<noteq> None then stored rem k else cache st k)"
proof (induction chunk arbitrary: st rs st')
  case Nil
  then show ?case by auto
next
  case (Cons h hs)
  obtain r st1 where s1: "fetchColorData_settle rem (InFlight h s l) st = (r, st1)"
    by (cases "fetchColorData_settle rem (InFlight h s l) st") auto
  obtain rs2 st2 where s2: "settleAll rem (map (\<lambda>h. InFlight h s l) hs) st1 = (rs2, st2)"
    by (cases "settleAll rem (map (\<lambda>h. InFlight h s l) hs) st1") auto
  from Cons.prems s1 s2 have eq: "rs = r # rs2" "st' = st2" by auto
  have r: "r = lookup rem (h, s, l)" and c1: "calls st1 = calls st"
    using s1 by (auto simp: fetchColorData_settle_def lookup_def split: sum.splits)
  have m1: "cache st1 k = (if k = (h, s, l) \<and> stored rem k \<noteq> None then stored rem k else cache st k)" for k
  proof (cases "colorDataOf h s l (rem (h, s, l))")
    case (Inl e)
    then have "stored rem (h, s, l) = None" by (simp add: stored_def lookup_def)
    moreover have "st1 = st" using s1 Inl by (simp add: fetchColorData_settle_def)
    ultimately show ?thesis by auto
  next
    case (Inr cd)
    then have "stored rem (h, s, l) = Some cd" by (simp add: stored_def lookup_def)
    moreover have "st1 = st\<lparr>cache := (cache st)((h, s, l) \<mapsto> cd)\<rparr>"
      using s1 Inr by (simp add: fetchColorData_settle_def)
    ultimately show ?thesis by auto
  qed
  from Cons.IH [OF s2] have ih: "rs2 = map (\<lambda>h. lookup rem (h, s, l)) hs" "calls st2 = calls st1"
    "cache st2 = (\<lambda>k. if k \<in> (\<lambda>h. (h, s, l)) ` set hs \<and> stored rem k \<noteq> None then stored rem k else cache st1 k)"
    by auto
  have "cache st2 = (\<lambda>k. if k \<in> (\<lambda>h. (h, s, l)) ` set (h # hs) \<and> stored rem k \<noteq> None then stored rem k else cache st k)"
    unfolding ih(3) by (rule ext) (auto simp: m1)
  then show ?case using eq r ih c1 by simp
qed

lemma promiseAll_uncached:
  assumes un: "\<forall>h\<in>set chunk. cache st (h, s, l) = None"
    and run: "promiseAll rem s l chunk st = (res, st')"
  shows "extends rem st st' (map (\<lambda>h. (h, s, l)) chunk)"
    and "res = (case firstError rem (map (\<lambda>h. (h, s, l)) chunk) of Some e \<Rightarrow> Inl e
                | None \<Rightarrow> Inr (map (\<lambda>h. the (stored rem (h, s, l))) chunk))"
proof -
  let ?st1 = "st\<lparr>calls := calls st @ map (\<lambda>h. (h, s, l)) chunk\<rparr>"
  obtain rs st2 where s2: "settleAll rem (map (\<lambda>h. InFlight h s l) chunk) ?st1 = (rs, st2)"
    by (cases "settleAll rem (map (\<lambda>h. InFlight h s l) chunk) ?st1") auto
  from run have eq: "res = allOrRejection rs" "st' = st2"
    by (simp_all add: promiseAll_def startAll_uncached [OF un] s2)
  have cs: "cache ?st1 = cache st" by simp
  from settleAll_inflight [OF s2] have rs: "rs = map (\<lambda>h. lookup rem (h, s, l)) chunk"
    and c: "calls st2 = calls st @ map (\<lambda>h. (h, s, l)) chunk"
    and m: "cache st2 = (\<lambda>k. if k \<in> (\<lambda>h. (h, s, l)) ` set chunk \<and> stored rem k \<noteq> None then stored rem k else cache st k)"
    unfolding cs by simp_all
  have "cache st2 = (\<lambda>k. if k \<in> set (map (\<lambda>h. (h, s, l)) chunk) then stored rem k else cache st k)"
    unfolding m using un by (intro ext) auto
  then show "extends rem st st' (map (\<lambda>h. (h, s, l)) chunk)"
    using c un eq by (auto simp: extends_def)
  show "res = (case firstError rem (map (\<lambda>h. (h, s, l)) chunk) of Some e \<Rightarrow> Inl e
                | None \<Rightarrow> Inr (map (\<lambda>h. the (stored rem (h, s, l))) chunk))"
    using eq rs allOrRejection_lookup [of rem "map (\<lambda>h. (h, s, l)) chunk"]
    by (simp add: o_def split: option.splits)
qed

subsection \<open>The chunk loop\<close>

lemma drop_split: "drop i xs = take n (drop i xs) @ drop (i + n) xs"
  using append_take_drop_id [of n "drop i xs"] by (simp add: add.commute)

lemma take_drop_keys_disjoint:
  assumes "distinct batch" and "h \<in> set (drop (i + n) batch)"
  shows "h \<notin> set (take n (drop i batch))"
proof -
  have "drop i batch = take n (drop i batch) @ drop (i + n) batch"
    by (rule drop_split)
  moreover have "distinct (drop i batch)" using assms(1) by simp
  ultimately have "distinct (take n (drop i batch) @ drop (i + n) batch)" by simp
  then show ?thesis using assms(2) by auto
qed

lemma fetchChunks_outcome:
  assumes "distinct batch"
    and "\<forall>h\<in>set (drop i batch). cache st (h, s, l) = None"
    and "fetchChunks rem s l batch i results st = (res, st')"
  shows "case res of
           Inl e \<Rightarrow> \<exists>n. outcome rem st (Some e) st' (map (\<lambda>h. (h, s, l)) (take n (drop i batch)))
         | Inr rs \<Rightarrow> outcome rem st None st' (map (\<lambda>h. (h, s, l)) (drop i batch)) \<and>
                    rs = results @ map (\<lambda>h. the (stored rem (h, s, l))) (drop i batch)"
  using assms
proof (induction rem s l batch i results st arbitrary: res st' rule: fetchChunks.induct)
  case (1 rem s l batch i results st)
  let ?K = "\<lambda>h. (h, s, l)"
  show ?case
  proof (cases "i < length batch")
    case False
    then have "res = Inr results" "st' = st" using "1.prems"(3)
      by (simp_all add: fetchChunks.simps [of rem s l batch i])
    then show ?thesis using False by (simp add: outcome_none)
  next
    case True
    let ?chunk = "take BATCH_SIZE (drop i batch)"
    obtain r1 st1 where p: "promiseAll rem s l ?chunk st = (r1, st1)"
      by (cases "promiseAll rem s l ?chunk st") auto
    have un: "\<forall>h\<in>set ?chunk. cache st (h, s, l) = None"
      using "1.prems"(2) by (auto dest: in_set_takeD)
    note e1 = promiseAll_uncached(1) [OF un p] and r1 = promiseAll_uncached(2) [OF un p]
    have d1: "distinct (map ?K ?chunk)"
      using "1.prems"(1) by (simp add: distinct_map inj_on_def)
    show ?thesis
    proof (cases r1)
      case (Inl e)
      then have eq: "res = Inl e" "st' = st1" using "1.prems"(3) True p
        by (simp_all add: fetchChunks.simps [of rem s l batch i])
      have "firstError rem (map ?K ?chunk) = Some e"
        using r1 Inl by (auto split: option.splits)
      then have "outcome rem st (Some e) st1 (map ?K (take BATCH_SIZE (drop i batch)))"
        using e1 d1 by (simp add: outcome_def)
      then show ?thesis unfolding eq by auto
    next
      case (Inr rs1)
      then have rec: "fetchChunks rem s l batch (i + BATCH_SIZE) (results @ rs1) st1 = (res, st')"
        using "1.prems"(3) True p by (simp add: fetchChunks.simps [of rem s l batch i])
      have f1: "firstError rem (map ?K ?chunk) = None"
        and rs1: "rs1 = map (\<lambda>h. the (stored rem (h, s, l))) ?chunk"
        using r1 Inr by (auto split: option.splits)
      have o1: "outcome rem st None st1 (map ?K ?chunk)"
        using e1 d1 f1 by (simp add: outcome_def)
      have un2: "\<forall>h\<in>set (drop (i + BATCH_SIZE) batch). cache st1 (h, s, l) = None"
      proof
        fix h assume h: "h \<in> set (drop (i + BATCH_SIZE) batch)"
        then have "h \<notin> set ?chunk" using "1.prems"(1) by (rule take_drop_keys_disjoint [rotated])
        then have "(h, s, l) \<notin> set (map ?K ?chunk)" by auto
        then have "cache st1 (h, s, l) = cache st (h, s, l)" using e1 by (rule extends_unchanged [rotated])
        moreover have "h \<in> set (drop i batch)"
          using h by (metis add.commute drop_drop in_set_dropD)
        ultimately show "cache st1 (h, s, l) = None" using "1.prems"(2) by simp
      qed
      have split: "drop i batch = ?chunk @ drop (i + BATCH_SIZE) batch"
        by (rule drop_split)
      have ih: "case res of
           Inl e \<Rightarrow> \<exists>n. outcome rem st1 (Some e) st' (map ?K (take n (drop (i + BATCH_SIZE) batch)))
         | Inr rs \<Rightarrow> outcome rem st1 None st' (map ?K (drop (i + BATCH_SIZE) batch)) \<and>
                    rs = (results @ rs1) @ map (\<lambda>h. the (stored rem (h, s, l))) (drop (i + BATCH_SIZE) batch)"
        using "1.IH" [OF True p [symmetric] Inr "1.prems"(1) un2 rec] .
      show ?thesis
      proof (cases res)
        case (Inl e)
        then obtain n where on: "outcome rem st1 (Some e) st' (map ?K (take n (drop (i + BATCH_SIZE) batch)))"
          using ih by auto
        have "map ?K ?chunk @ map ?K (take n (drop (i + BATCH_SIZE) batch))
              = map ?K (take (BATCH_SIZE + n) (drop i batch))"
          by (simp add: take_add add.commute flip: map_append)
        with outcome_trans [OF o1 on] show ?thesis using Inl by auto
      next
        case (Inr rs)
        then have on: "outcome rem st1 None st' (map ?K (drop (i + BATCH_SIZE) batch))"
          and rs: "rs = (results @ rs1) @ map (\<lambda>h. the (stored rem (h, s, l))) (drop (i + BATCH_SIZE) batch)"
          using ih by auto
        have "map ?K ?chunk @ map ?K (drop (i + BATCH_SIZE) batch) = map ?K (drop i batch)"
          using split by (metis map_append)
        with outcome_trans [OF o1 on] have "outcome rem st None st' (map ?K (drop i batch))" by simp
        moreover have "rs = results @ map (\<lambda>h. the (stored rem (h, s, l))) (drop i batch)"
          unfolding rs rs1 using split by (metis append.assoc map_append)
        ultimately show ?thesis using Inr by simp
      qed
    qed
  qed
qed

subsection \<open>A whole batch\<close>

lemma stored_hue: "stored rem (h, s, l) = Some c \<Longrightarrow> hue c = h"
  by (auto simp: stored_def lookup_def colorDataOf_def
      split: sum.splits fetchOutcome.splits if_splits jsonBody.splits option.splits)

lemma splitCached_eq:
  "splitCached s l c hs acc =
     (fst acc @ filter (\<lambda>h. c (h, s, l) = None) hs,
      fold (\<lambda>h cbh. case c (h, s, l) of Some v \<Rightarrow> AList.update h v cbh | None \<Rightarrow> cbh) hs (snd acc))"
  by (induction hs arbitrary: acc) (auto split: option.splits)

lemma map_of_fold_cached:
  "map_of (fold (\<lambda>h cbh. case c (h, s, l) of Some v \<Rightarrow> AList.update h v cbh | None \<Rightarrow> cbh) hs cbh) =
     (\<lambda>h. if h \<in> set hs \<and> c (h, s, l) \<noteq> None then c (h, s, l) else map_of cbh h)"
proof (induction hs arbitrary: cbh)
  case Nil
  then show ?case by simp
next
  case (Cons x xs)
  show ?case
  proof (cases "c (x, s, l)")
    case None
    then show ?thesis using Cons.IH [of cbh] by (auto simp: fun_eq_iff)
  next
    case (Some v)
    then show ?thesis using Cons.IH [of "AList.update x v cbh"]
      by (auto simp: fun_eq_iff update_conv')
  qed
qed

lemma distinct_fold_cached:
  "distinct (map fst cbh) \<Longrightarrow>
   distinct (map fst (fold (\<lambda>h cbh. case c (h, s, l) of Some v \<Rightarrow> AList.update h v cbh | None \<Rightarrow> cbh) hs cbh))"
  by (induction hs arbitrary: cbh) (auto simp: distinct_update split: option.splits)

lemma map_of_fold_results:
  "\<forall>h\<in>set hs. hue (f h) = h \<Longrightarrow>
   map_of (fold (\<lambda>color. AList.update (hue color) color) (map f hs) cbh) =
     (\<lambda>h. if h \<in> set hs then Some (f h) else map_of cbh h)"
proof (induction hs arbitrary: cbh)
  case Nil
  then show ?case by simp
next
  case (Cons x xs)
  then have "hue (f x) = x" and "\<forall>h\<in>set xs. hue (f h) = h" by simp_all
  then show ?case using Cons.IH [of "AList.update x (f x) cbh"]
    by (auto simp: fun_eq_iff update_conv')
qed

lemma distinct_fold_results:
  "distinct (map fst cbh) \<Longrightarrow>
   distinct (map fst (fold (\<lambda>color. AList.update (hue color) color) rs cbh))"
  by (induction rs arbitrary: cbh) (auto simp: distinct_update)

lemma fetchBatch_outcome:
  assumes dist: "distinct hues"
    and run: "fetchBatch rem s l hues cbh st = (res, st')"
  shows "case res of
           Inl e \<Rightarrow> \<exists>n. outcome rem st (Some e) st'
                           (map (\<lambda>h. (h, s, l)) (take n (filter (\<lambda>h. cache st (h, s, l) = None) hues)))
         | Inr cbh' \<Rightarrow>
             outcome rem st None st' (map (\<lambda>h. (h, s, l)) (filter (\<lambda>h. cache st (h, s, l) = None) hues)) \<and>
             map_of cbh' = (\<lambda>h. if h \<in> set hues then cache st' (h, s, l) else map_of cbh h) \<and>
             (\<forall>h\<in>set hues. cache st' (h, s, l) \<noteq> None) \<and>
             (distinct (map fst cbh) \<longrightarrow> distinct (map fst cbh'))"
proof -
  let ?K = "\<lambda>h. (h, s, l)"
  let ?batch = "filter (\<lambda>h. cache st (h, s, l) = None) hues"
  let ?cbh1 = "fold (\<lambda>h cbh. case cache st (h, s, l) of Some v \<Rightarrow> AList.update h v cbh | None \<Rightarrow> cbh) hues cbh"
  have sp: "splitCached s l (cache st) hues ([], cbh) = (?batch, ?cbh1)"
    by (simp add: splitCached_eq)
  have m1: "map_of ?cbh1 = (\<lambda>h. if h \<in> set hues \<and> cache st (h, s, l) \<noteq> None then cache st (h, s, l) else map_of cbh h)"
    by (rule map_of_fold_cached)
  show ?thesis
  proof (cases "?batch = []")
    case True
    have "fetchBatch rem s l hues cbh st = (Inr ?cbh1, st)"
      unfolding fetchBatch_def sp using True by simp
    then have eq: "res = Inr ?cbh1" "st' = st" using run by simp_all
    have all: "\<forall>h\<in>set hues. cache st (h, s, l) \<noteq> None"
      using True by (auto simp: filter_empty_conv)
    then have "map_of ?cbh1 = (\<lambda>h. if h \<in> set hues then cache st (h, s, l) else map_of cbh h)"
      unfolding m1 by (auto simp: fun_eq_iff)
    then show ?thesis unfolding eq using True all
      by (simp add: outcome_none distinct_fold_cached)
  next
    case False
    obtain r1 st1 where ch: "fetchChunks rem s l ?batch 0 [] st = (r1, st1)"
      by (cases "fetchChunks rem s l ?batch 0 [] st") auto
    have db: "distinct ?batch" using dist by simp
    have un: "\<forall>h\<in>set (drop 0 ?batch). cache st (h, s, l) = None" by simp
    note fc = fetchChunks_outcome [OF db un ch]
    show ?thesis
    proof (cases r1)
      case (Inl e)
      then have eq: "res = Inl e" "st' = st1" using run False ch by (simp_all add: fetchBatch_def sp)
      from fc obtain n where "outcome rem st (Some e) st1 (map ?K (take n (drop 0 ?batch)))"
        unfolding Inl by auto
      then have "outcome rem st (Some e) st1 (map ?K (take n ?batch))" by simp
      then show ?thesis unfolding eq by auto
    next
      case (Inr rs)
      then have eq: "res = Inr (fold (\<lambda>color. AList.update (hue color) color) rs ?cbh1)" "st' = st1"
        using run False ch by (simp_all add: fetchBatch_def sp)
      have "outcome rem st None st1 (map ?K (drop 0 ?batch)) \<and>
            rs = [] @ map (\<lambda>h. the (stored rem (h, s, l))) (drop 0 ?batch)"
        using fc unfolding Inr sum.case .
      then have oc0: "outcome rem st None st1 (map ?K (drop 0 ?batch))"
        and rs0: "rs = [] @ map (\<lambda>h. the (stored rem (h, s, l))) (drop 0 ?batch)" by blast+
      have oc: "outcome rem st None st1 (map ?K ?batch)" using oc0 by simp
      have rs: "rs = map (\<lambda>h. the (stored rem (h, s, l))) ?batch" using rs0 by simp
      from oc have ex: "extends rem st st1 (map ?K ?batch)" and fe: "firstError rem (map ?K ?batch) = None"
        by (simp_all add: outcome_def)
      have cached: "\<exists>c. stored rem (h, s, l) = Some c \<and> cache st1 (h, s, l) = Some c"
        if "h \<in> set ?batch" for h
      proof -
        from that have k: "(h, s, l) \<in> set (map ?K ?batch)" by auto
        from firstError_None_stored [OF fe k] obtain c where c: "stored rem (h, s, l) = Some c" by blast
        from extends_success_cached(1) [OF ex fe k] have "cache st1 (h, s, l) = Some c" by (simp add: c)
        with c show ?thesis by blast
      qed
      have hues_ok: "\<forall>h\<in>set ?batch. hue (the (stored rem (h, s, l))) = h"
      proof
        fix h assume "h \<in> set ?batch"
        from cached [OF this] obtain c where c: "stored rem (h, s, l) = Some c" by blast
        from stored_hue [OF c] show "hue (the (stored rem (h, s, l))) = h" by (simp add: c)
      qed
      have old: "cache st1 (h, s, l) = cache st (h, s, l)" if "cache st (h, s, l) \<noteq> None" for h
        using extends_map_le [OF ex] that by (auto simp: map_le_def dom_def)
      have m2: "map_of (fold (\<lambda>color. AList.update (hue color) color) rs ?cbh1) =
                  (\<lambda>h. if h \<in> set ?batch then Some (the (stored rem (h, s, l))) else map_of ?cbh1 h)"
        unfolding rs by (rule map_of_fold_results [OF hues_ok])
      have "map_of (fold (\<lambda>color. AList.update (hue color) color) rs ?cbh1) =
              (\<lambda>h. if h \<in> set hues then cache st1 (h, s, l) else map_of cbh h)"
      proof
        fix h
        show "map_of (fold (\<lambda>color. AList.update (hue color) color) rs ?cbh1) h =
              (if h \<in> set hues then cache st1 (h, s, l) else map_of cbh h)"
        proof (cases "h \<in> set ?batch")
          case True
          from cached [OF True] obtain c where "stored rem (h, s, l) = Some c" "cache st1 (h, s, l) = Some c"
            by blast
          with True show ?thesis unfolding m2 by simp
        next
          case False
          show ?thesis
          proof (cases "h \<in> set hues")
            case True
            with False have "cache st (h, s, l) \<noteq> None" by simp
            with old [OF this] True False show ?thesis unfolding m2 m1 by simp
          next
            case False
            then show ?thesis unfolding m2 m1 by simp
          qed
        qed
      qed
      moreover have "\<forall>h\<in>set hues. cache st1 (h, s, l) \<noteq> None"
      proof
        fix h assume "h \<in> set hues"
        show "cache st1 (h, s, l) \<noteq> None"
        proof (cases "cache st (h, s, l) = None")
          case True
          with \<open>h \<in> set hues\<close> have "h \<in> set ?batch" by simp
          from cached [OF this] show ?thesis by auto
        next
          case False
          with old [OF False] show ?thesis by simp
        qed
      qed
      moreover have "distinct (map fst cbh) \<longrightarrow>
          distinct (map fst (fold (\<lambda>color. AList.update (hue color) color) rs ?cbh1))"
        by (simp add: distinct_fold_results distinct_fold_cached)
      moreover have "outcome rem st None st' (map ?K ?batch)"
        unfolding eq using oc .
      ultimately show ?thesis unfolding eq by simp
    qed
  qed
qed

lemma errorOf_simps [simp]: "errorOf (Inl e) = Some e" "errorOf (Inr x) = None"
  by (simp_all add: errorOf_def)

lemma outcome_map_le: "outcome rem st err st' new \<Longrightarrow> cache st \<subseteq>\<^sub>m cache st'"
  unfolding outcome_def by (blast intro: extends_map_le)

subsection \<open>A batch whose hues are all cached\<close>

lemma fetchBatch_cached:
  assumes "\<forall>h\<in>set hues. cache st (h, s, l) \<noteq> None"
  shows "fetchBatch rem s l hues cbh st =
    (Inr (fold (\<lambda>h cbh. case cache st (h, s, l) of Some v \<Rightarrow> AList.update h v cbh | None \<Rightarrow> cbh) hues cbh), st)"
proof -
  have "filter (\<lambda>h. cache st (h, s, l) = None) hues = []"
    using assms by (auto simp: filter_empty_conv)
  then show ?thesis by (simp add: fetchBatch_def splitCached_eq)
qed

subsection \<open>Phase 3\<close>

lemma refineRanges_outcome:
  assumes "\<forall>r\<in>set rs. distinct (fillHues r)"
    and "refineRanges rem s l rs cbh st = (res, st')"
  shows "\<exists>new. outcome rem st (errorOf res) st' new \<and>
           set new \<subseteq> (\<lambda>h. (h, s, l)) ` (\<Union>r\<in>set rs. set (fillHues r)) \<and>
           (\<forall>cbh'. res = Inr cbh' \<longrightarrow>
              map_of cbh' = (\<lambda>h. if h \<in> (\<Union>r\<in>set rs. set (fillHues r)) then cache st' (h, s, l) else map_of cbh h) \<and>
              (\<forall>h\<in>(\<Union>r\<in>set rs. set (fillHues r)). cache st' (h, s, l) \<noteq> None) \<and>
              (distinct (map fst cbh) \<longrightarrow> distinct (map fst cbh')))"
  using assms
proof (induction rs arbitrary: cbh st)
  case Nil
  then have "res = Inr cbh" "st' = st" by simp_all
  then show ?case by (auto simp: outcome_none)
next
  case (Cons r rs)
  let ?K = "\<lambda>h. (h, s, l)"
  let ?U = "\<Union>r\<in>set rs. set (fillHues r)"
  have dr: "distinct (fillHues r)" and drs: "\<forall>r\<in>set rs. distinct (fillHues r)"
    using Cons.prems(1) by simp_all
  obtain r1 st1 where fb: "fetchBatch rem s l (fillHues r) cbh st = (r1, st1)"
    by (cases "fetchBatch rem s l (fillHues r) cbh st") auto
  note fo = fetchBatch_outcome [OF dr fb]
  show ?case
  proof (cases "fillHues r = []")
    case True
    then have "refineRanges rem s l rs cbh st = (res, st')" using Cons.prems(2) by simp
    from Cons.IH [OF drs this] show ?thesis using True by simp
  next
    case False
    show ?thesis
    proof (cases r1)
      case (Inl e)
      then have eq: "res = Inl e" "st' = st1" using Cons.prems(2) False fb by simp_all
      from fo obtain n where
        o: "outcome rem st (Some e) st1 (map ?K (take n (filter (\<lambda>h. cache st (h, s, l) = None) (fillHues r))))"
        unfolding Inl by auto
      have "set (map ?K (take n (filter (\<lambda>h. cache st (h, s, l) = None) (fillHues r))))
              \<subseteq> ?K ` (\<Union>r\<in>set (r # rs). set (fillHues r))"
        by (auto dest!: in_set_takeD)
      with o show ?thesis unfolding eq by (intro exI conjI) (assumption | simp)+
    next
      case (Inr cbh1)
      then have rec: "refineRanges rem s l rs cbh1 st1 = (res, st')"
        using Cons.prems(2) False fb by simp
      from fo have o1: "outcome rem st None st1 (map ?K (filter (\<lambda>h. cache st (h, s, l) = None) (fillHues r)))"
        and m1: "map_of cbh1 = (\<lambda>h. if h \<in> set (fillHues r) then cache st1 (h, s, l) else map_of cbh h)"
        and c1: "\<forall>h\<in>set (fillHues r). cache st1 (h, s, l) \<noteq> None"
        and d1: "distinct (map fst cbh) \<longrightarrow> distinct (map fst cbh1)"
        unfolding Inr by simp_all
      from Cons.IH [OF drs rec] obtain new2 where
        o2: "outcome rem st1 (errorOf res) st' new2"
        and s2: "set new2 \<subseteq> ?K ` ?U"
        and ok2: "\<forall>cbh'. res = Inr cbh' \<longrightarrow>
              map_of cbh' = (\<lambda>h. if h \<in> ?U then cache st' (h, s, l) else map_of cbh1 h) \<and>
              (\<forall>h\<in>?U. cache st' (h, s, l) \<noteq> None) \<and>
              (distinct (map fst cbh1) \<longrightarrow> distinct (map fst cbh'))"
        by blast
      let ?new = "map ?K (filter (\<lambda>h. cache st (h, s, l) = None) (fillHues r)) @ new2"
      have o: "outcome rem st (errorOf res) st' ?new" using o1 o2 by (rule outcome_trans)
      have "?K ` ?U \<subseteq> ?K ` (\<Union>r\<in>set (r # rs). set (fillHues r))"
        by (rule image_mono) auto
      with s2 have "set new2 \<subseteq> ?K ` (\<Union>r\<in>set (r # rs). set (fillHues r))" by (rule subset_trans)
      moreover have "set (map ?K (filter (\<lambda>h. cache st (h, s, l) = None) (fillHues r)))
          \<subseteq> ?K ` (\<Union>r\<in>set (r # rs). set (fillHues r))" by auto
      ultimately have sub: "set ?new \<subseteq> ?K ` (\<Union>r\<in>set (r # rs). set (fillHues r))"
        unfolding set_append by (rule Un_least [rotated])
      have mono: "cache st1 \<subseteq>\<^sub>m cache st'"
        using o2 by (rule outcome_map_le)
      have keep: "cache st' (h, s, l) = cache st1 (h, s, l)" if "h \<in> set (fillHues r)" for h
        using mono c1 that by (auto simp: map_le_def dom_def)
      have fin: "map_of cbh' = (\<lambda>h. if h \<in> (\<Union>r\<in>set (r # rs). set (fillHues r)) then cache st' (h, s, l) else map_of cbh h) \<and>
              (\<forall>h\<in>(\<Union>r\<in>set (r # rs). set (fillHues r)). cache st' (h, s, l) \<noteq> None) \<and>
              (distinct (map fst cbh) \<longrightarrow> distinct (map fst cbh'))" if "res = Inr cbh'" for cbh'
      proof -
        from ok2 that have m2: "map_of cbh' = (\<lambda>h. if h \<in> ?U then cache st' (h, s, l) else map_of cbh1 h)"
          and c2: "\<forall>h\<in>?U. cache st' (h, s, l) \<noteq> None"
          and d2: "distinct (map fst cbh1) \<longrightarrow> distinct (map fst cbh')" by blast+
        have "map_of cbh' = (\<lambda>h. if h \<in> (\<Union>r\<in>set (r # rs). set (fillHues r)) then cache st' (h, s, l) else map_of cbh h)"
          unfolding m2 m1 by (rule ext) (auto simp: keep)
        moreover have "\<forall>h\<in>(\<Union>r\<in>set (r # rs). set (fillHues r)). cache st' (h, s, l) \<noteq> None"
          using c2 c1 keep by auto
        ultimately show ?thesis using d1 d2 by blast
      qed
      show ?thesis using o sub fin by blast
    qed
  qed
qed

lemma refineRanges_cached:
  assumes "\<forall>r\<in>set rs. \<forall>h\<in>set (fillHues r). cache st (h, s, l) \<noteq> None"
  shows "\<exists>cbh'. refineRanges rem s l rs cbh st = (Inr cbh', st)"
  using assms
proof (induction rs arbitrary: cbh)
  case Nil
  then show ?case by simp
next
  case (Cons r rs)
  then have "\<forall>h\<in>set (fillHues r). cache st (h, s, l) \<noteq> None" by simp
  from fetchBatch_cached [OF this] obtain cbh1 where
    "fetchBatch rem s l (fillHues r) cbh st = (Inr cbh1, st)" by blast
  moreover from Cons have "\<And>cbh. \<exists>cbh'. refineRanges rem s l rs cbh st = (Inr cbh', st)" by simp
  ultimately show ?case by simp
qed

subsection \<open>Phases 1 to 3 as a whole\<close>

lemma distinct_coarseHues: "distinct coarseHues"
  unfolding coarseHues_eq by (simp add: distinct_map inj_on_def)

lemma coarseHues_less: "h \<in> set coarseHues \<Longrightarrow> h < 360"
  unfolding coarseHues_eq by auto

lemma boundaryAt_members:
  assumes "i < length hs" and "r \<in> set (boundaryAt cbh hs i)"
  shows "range_start r \<in> set hs \<and> range_end r \<in> set hs"
proof -
  have "(i + 1) mod length hs < length hs" using assms(1) by (intro mod_less_divisor) auto
  then have "hs ! ((i + 1) mod length hs) \<in> set hs" by (rule nth_mem)
  moreover have "hs ! i \<in> set hs" using assms(1) by (rule nth_mem)
  ultimately show ?thesis using assms(2)
    by (auto simp: boundaryAt_def Let_def split: option.splits if_splits)
qed

lemma boundaryRanges_members:
  "r \<in> set (boundaryRanges cbh) \<Longrightarrow> range_start r \<in> set coarseHues \<and> range_end r \<in> set coarseHues"
  unfolding boundaryRanges_def by (auto dest: boundaryAt_members [rotated])

lemma distinct_fillHues:
  assumes "r \<in> set (boundaryRanges cbh)"
  shows "distinct (fillHues r)"
proof -
  from boundaryRanges_members [OF assms] have "range_start r < 360" "range_end r < 360"
    by (simp_all add: coarseHues_less)
  then show ?thesis by (auto simp: fillHues_closed)
qed

lemma boundaryAt_cong:
  assumes "i < length hs" and "\<forall>h\<in>set hs. map_of a h = map_of b h"
  shows "boundaryAt a hs i = boundaryAt b hs i"
proof -
  have "(i + 1) mod length hs < length hs" using assms(1) by (intro mod_less_divisor) auto
  then have "hs ! ((i + 1) mod length hs) \<in> set hs" by (rule nth_mem)
  then have "map_of a (hs ! ((i + 1) mod length hs)) = map_of b (hs ! ((i + 1) mod length hs))"
    using assms(2) by blast
  moreover have "hs ! i \<in> set hs" using assms(1) by (rule nth_mem)
  then have "map_of a (hs ! i) = map_of b (hs ! i)" using assms(2) by blast
  ultimately show ?thesis unfolding boundaryAt_def Let_def by simp
qed

lemma boundaryRanges_cong:
  "\<forall>h\<in>set coarseHues. map_of a h = map_of b h \<Longrightarrow> boundaryRanges a = boundaryRanges b"
  unfolding boundaryRanges_def
  by (rule arg_cong [where f = concat], rule map_cong) (auto intro: boundaryAt_cong)

lemma map_of_cachedCoarse:
  "map_of (cachedCoarse s l c) = (\<lambda>h. if h \<in> set coarseHues then c (h, s, l) else None)"
  unfolding cachedCoarse_def splitCached_eq snd_conv map_of_fold_cached
  by (rule ext) auto

lemma set_neededHues:
  "set (neededHues s l c) = set coarseHues \<union> (\<Union>r\<in>set (boundaryRanges (cachedCoarse s l c)). set (fillHues r))"
  by (simp add: neededHues_def)

lemma resolveHues_outcome:
  assumes run: "resolveHues rem s l st = (res, st')"
  shows "\<exists>new. outcome rem st (errorOf res) st' new \<and>
           (\<forall>cbh. res = Inr cbh \<longrightarrow>
              map_of cbh = (\<lambda>h. if h \<in> set (neededHues s l (cache st')) then cache st' (h, s, l) else None) \<and>
              (\<forall>h\<in>set (neededHues s l (cache st')). cache st' (h, s, l) \<noteq> None) \<and>
              distinct (map fst cbh))"
proof -
  let ?K = "\<lambda>h. (h, s, l)"
  obtain r1 st1 where fb: "fetchBatch rem s l coarseHues [] st = (r1, st1)"
    by (cases "fetchBatch rem s l coarseHues [] st") auto
  note fo = fetchBatch_outcome [OF distinct_coarseHues fb]
  show ?thesis
  proof (cases r1)
    case (Inl e)
    then have eq: "res = Inl e" "st' = st1" using run fb by (simp_all add: resolveHues_def)
    from fo obtain n where
      "outcome rem st (Some e) st1 (map ?K (take n (filter (\<lambda>h. cache st (h, s, l) = None) coarseHues)))"
      unfolding Inl by auto
    then show ?thesis unfolding eq by auto
  next
    case (Inr cbh1)
    let ?R = "boundaryRanges cbh1"
    let ?U = "\<Union>r\<in>set ?R. set (fillHues r)"
    from Inr have rec: "refineRanges rem s l ?R cbh1 st1 = (res, st')"
      using run fb by (simp add: resolveHues_def)
    from fo have o1: "outcome rem st None st1 (map ?K (filter (\<lambda>h. cache st (h, s, l) = None) coarseHues))"
      and m1: "map_of cbh1 = (\<lambda>h. if h \<in> set coarseHues then cache st1 (h, s, l) else map_of [] h)"
      and c1: "\<forall>h\<in>set coarseHues. cache st1 (h, s, l) \<noteq> None"
      and d1: "distinct (map fst cbh1)"
      unfolding Inr by simp_all
    have dr: "\<forall>r\<in>set ?R. distinct (fillHues r)" by (simp add: distinct_fillHues)
    from refineRanges_outcome [OF dr rec] obtain new2 where
      o2: "outcome rem st1 (errorOf res) st' new2"
      and ok2: "\<forall>cbh'. res = Inr cbh' \<longrightarrow>
              map_of cbh' = (\<lambda>h. if h \<in> ?U then cache st' (h, s, l) else map_of cbh1 h) \<and>
              (\<forall>h\<in>?U. cache st' (h, s, l) \<noteq> None) \<and>
              (distinct (map fst cbh1) \<longrightarrow> distinct (map fst cbh'))"
      by blast
    have o: "outcome rem st (errorOf res) st' (map ?K (filter (\<lambda>h. cache st (h, s, l) = None) coarseHues) @ new2)"
      using o1 o2 by (rule outcome_trans)
    have mono: "cache st1 \<subseteq>\<^sub>m cache st'" using o2 by (rule outcome_map_le)
    have keep: "cache st' (h, s, l) = cache st1 (h, s, l)" if "h \<in> set coarseHues" for h
      using mono c1 that by (auto simp: map_le_def dom_def)
    have "\<forall>h\<in>set coarseHues. map_of cbh1 h = map_of (cachedCoarse s l (cache st')) h"
      by (simp add: m1 map_of_cachedCoarse keep)
    then have R: "?R = boundaryRanges (cachedCoarse s l (cache st'))" by (rule boundaryRanges_cong)
    have needed: "set (neededHues s l (cache st')) = set coarseHues \<union> ?U"
      by (simp add: set_neededHues R)
    have fin: "map_of cbh = (\<lambda>h. if h \<in> set (neededHues s l (cache st')) then cache st' (h, s, l) else None) \<and>
              (\<forall>h\<in>set (neededHues s l (cache st')). cache st' (h, s, l) \<noteq> None) \<and>
              distinct (map fst cbh)" if "res = Inr cbh" for cbh
    proof -
      from ok2 that d1 have m2: "map_of cbh = (\<lambda>h. if h \<in> ?U then cache st' (h, s, l) else map_of cbh1 h)"
        and c2: "\<forall>h\<in>?U. cache st' (h, s, l) \<noteq> None"
        and d2: "distinct (map fst cbh)" by blast+
      have "map_of cbh = (\<lambda>h. if h \<in> set (neededHues s l (cache st')) then cache st' (h, s, l) else None)"
        unfolding m2 m1 needed by (rule ext) (auto simp: keep)
      moreover have "\<forall>h\<in>set (neededHues s l (cache st')). cache st' (h, s, l) \<noteq> None"
        unfolding needed using c1 c2 keep by auto
      ultimately show ?thesis using d2 by blast
    qed
    show ?thesis using o fin by blast
  qed
qed

lemma resolveHues_cached:
  assumes all: "\<forall>h\<in>set (neededHues s l (cache st)). cache st (h, s, l) \<noteq> None"
  shows "\<exists>cbh. resolveHues rem s l st = (Inr cbh, st)"
proof -
  have co: "\<forall>h\<in>set coarseHues. cache st (h, s, l) \<noteq> None"
    using all by (simp add: set_neededHues)
  have p1: "fetchBatch rem s l coarseHues [] st = (Inr (cachedCoarse s l (cache st)), st)"
    unfolding fetchBatch_cached [OF co] cachedCoarse_def splitCached_eq by simp
  have "\<forall>r\<in>set (boundaryRanges (cachedCoarse s l (cache st))). \<forall>h\<in>set (fillHues r). cache st (h, s, l) \<noteq> None"
    using all unfolding set_neededHues by blast
  from refineRanges_cached [OF this] obtain cbh where
    "refineRanges rem s l (boundaryRanges (cachedCoarse s l (cache st))) (cachedCoarse s l (cache st)) st = (Inr cbh, st)"
    by blast
  then show ?thesis by (simp add: resolveHues_def p1)
qed

subsection \<open>Phase 4\<close>

lemma collectFrom_spec:
  assumes "sorted hs"
  shows "\<exists>new. collectFrom cbh hs (seen, acc) = (seen \<union> name ` set new, acc @ new) \<and>
           distinct (map name new) \<and>
           (\<forall>c\<in>set new. name c \<notin> seen \<and> name c \<noteq> [] \<and> name c \<noteq> ''Unnamed'' \<and>
              (\<exists>h\<in>set hs. map_of cbh h = Some c \<and>
                 (\<forall>h'\<in>set hs. \<forall>c'. map_of cbh h' = Some c' \<longrightarrow> name c' = name c \<longrightarrow> h \<le> h')))"
  using assms
proof (induction hs arbitrary: seen acc)
  case Nil
  have "collectFrom cbh [] (seen, acc) = (seen \<union> name ` set [], acc @ [])" by simp
  then show ?case by (intro exI [of _ "[]"]) simp
next
  case (Cons h hs)
  then have sorted: "sorted hs" and least: "\<forall>h'\<in>set hs. h \<le> h'" by simp_all
  let ?add = "\<exists>color. map_of cbh h = Some color \<and> name color \<noteq> [] \<and> name color \<noteq> ''Unnamed'' \<and> name color \<notin> seen"
  show ?case
  proof (cases ?add)
    case False
    then have step: "collectFrom cbh (h # hs) (seen, acc) = collectFrom cbh hs (seen, acc)"
      by (auto split: option.splits)
    from Cons.IH [OF sorted, of seen acc] obtain new where
      run: "collectFrom cbh hs (seen, acc) = (seen \<union> name ` set new, acc @ new)"
      and dist: "distinct (map name new)"
      and each: "\<forall>c\<in>set new. name c \<notin> seen \<and> name c \<noteq> [] \<and> name c \<noteq> ''Unnamed'' \<and>
              (\<exists>h\<in>set hs. map_of cbh h = Some c \<and>
                 (\<forall>h'\<in>set hs. \<forall>c'. map_of cbh h' = Some c' \<longrightarrow> name c' = name c \<longrightarrow> h \<le> h'))"
      by blast
    have "\<forall>c\<in>set new. name c \<notin> seen \<and> name c \<noteq> [] \<and> name c \<noteq> ''Unnamed'' \<and>
              (\<exists>k\<in>set (h # hs). map_of cbh k = Some c \<and>
                 (\<forall>h'\<in>set (h # hs). \<forall>c'. map_of cbh h' = Some c' \<longrightarrow> name c' = name c \<longrightarrow> k \<le> h'))"
    proof
      fix c assume c: "c \<in> set new"
      with each obtain k where k: "k \<in> set hs" "map_of cbh k = Some c"
        "\<forall>h'\<in>set hs. \<forall>c'. map_of cbh h' = Some c' \<longrightarrow> name c' = name c \<longrightarrow> k \<le> h'"
        and nm: "name c \<notin> seen" "name c \<noteq> []" "name c \<noteq> ''Unnamed''" by blast
      have "\<forall>c'. map_of cbh h = Some c' \<longrightarrow> name c' \<noteq> name c"
        using False nm by metis
      with k nm show "name c \<notin> seen \<and> name c \<noteq> [] \<and> name c \<noteq> ''Unnamed'' \<and>
              (\<exists>k\<in>set (h # hs). map_of cbh k = Some c \<and>
                 (\<forall>h'\<in>set (h # hs). \<forall>c'. map_of cbh h' = Some c' \<longrightarrow> name c' = name c \<longrightarrow> k \<le> h'))"
        by auto
    qed
    with run dist show ?thesis unfolding step by blast
  next
    case True
    then obtain color where col: "map_of cbh h = Some color" "name color \<noteq> []"
      "name color \<noteq> ''Unnamed''" "name color \<notin> seen" by blast
    then have step: "collectFrom cbh (h # hs) (seen, acc) =
        collectFrom cbh hs (insert (name color) seen, acc @ [color])" by simp
    from Cons.IH [OF sorted, of "insert (name color) seen" "acc @ [color]"] obtain new where
      run: "collectFrom cbh hs (insert (name color) seen, acc @ [color]) =
              (insert (name color) seen \<union> name ` set new, (acc @ [color]) @ new)"
      and dist: "distinct (map name new)"
      and each: "\<forall>c\<in>set new. name c \<notin> insert (name color) seen \<and> name c \<noteq> [] \<and> name c \<noteq> ''Unnamed'' \<and>
              (\<exists>h\<in>set hs. map_of cbh h = Some c \<and>
                 (\<forall>h'\<in>set hs. \<forall>c'. map_of cbh h' = Some c' \<longrightarrow> name c' = name c \<longrightarrow> h \<le> h'))"
      by blast
    have r: "collectFrom cbh (h # hs) (seen, acc) = (seen \<union> name ` set (color # new), acc @ (color # new))"
      unfolding step run by simp
    have d: "distinct (map name (color # new))" using dist each by auto
    have "\<forall>c\<in>set (color # new). name c \<notin> seen \<and> name c \<noteq> [] \<and> name c \<noteq> ''Unnamed'' \<and>
              (\<exists>k\<in>set (h # hs). map_of cbh k = Some c \<and>
                 (\<forall>h'\<in>set (h # hs). \<forall>c'. map_of cbh h' = Some c' \<longrightarrow> name c' = name c \<longrightarrow> k \<le> h'))"
    proof
      fix c assume "c \<in> set (color # new)"
      then consider "c = color" | "c \<in> set new" by auto
      then show "name c \<notin> seen \<and> name c \<noteq> [] \<and> name c \<noteq> ''Unnamed'' \<and>
              (\<exists>k\<in>set (h # hs). map_of cbh k = Some c \<and>
                 (\<forall>h'\<in>set (h # hs). \<forall>c'. map_of cbh h' = Some c' \<longrightarrow> name c' = name c \<longrightarrow> k \<le> h'))"
      proof cases
        case 1
        then show ?thesis using col least by auto
      next
        case 2
        with each obtain k where k: "k \<in> set hs" "map_of cbh k = Some c"
          "\<forall>h'\<in>set hs. \<forall>c'. map_of cbh h' = Some c' \<longrightarrow> name c' = name c \<longrightarrow> k \<le> h'"
          and nm: "name c \<notin> insert (name color) seen" "name c \<noteq> []" "name c \<noteq> ''Unnamed''" by blast
        have "\<forall>c'. map_of cbh h = Some c' \<longrightarrow> name c' \<noteq> name c"
          using col(1) nm(1) by auto
        with k nm show ?thesis by auto
      qed
    qed
    with r d show ?thesis by blast
  qed
qed

lemma collectDistinct_spec:
  "(\<forall>c\<in>set (collectDistinct cbh). name c \<noteq> [] \<and> name c \<noteq> ''Unnamed'') \<and>
   distinct (map name (collectDistinct cbh)) \<and>
   (\<forall>c\<in>set (collectDistinct cbh). \<exists>h. map_of cbh h = Some c \<and>
      (\<forall>h' c'. map_of cbh h' = Some c' \<longrightarrow> name c' = name c \<longrightarrow> h \<le> h'))"
proof -
  have "sorted (sortedHues cbh)" by (simp add: sortedHues_def)
  from collectFrom_spec [OF this, of cbh "{}" "[]"] obtain new where
    run: "collectFrom cbh (sortedHues cbh) ({}, []) = ({} \<union> name ` set new, [] @ new)"
    and dist: "distinct (map name new)"
    and each: "\<forall>c\<in>set new. name c \<notin> {} \<and> name c \<noteq> [] \<and> name c \<noteq> ''Unnamed'' \<and>
              (\<exists>h\<in>set (sortedHues cbh). map_of cbh h = Some c \<and>
                 (\<forall>h'\<in>set (sortedHues cbh). \<forall>c'. map_of cbh h' = Some c' \<longrightarrow> name c' = name c \<longrightarrow> h \<le> h'))"
    by blast
  have out: "collectDistinct cbh = new" by (simp add: collectDistinct_def run)
  have keys: "h' \<in> set (sortedHues cbh)" if "map_of cbh h' = Some c'" for h' c'
    using map_of_SomeD [OF that] by (force simp: sortedHues_def)
  have "\<forall>c\<in>set new. \<exists>h. map_of cbh h = Some c \<and>
      (\<forall>h' c'. map_of cbh h' = Some c' \<longrightarrow> name c' = name c \<longrightarrow> h \<le> h')"
  proof
    fix c assume "c \<in> set new"
    with each obtain h where h: "map_of cbh h = Some c"
      "\<forall>h'\<in>set (sortedHues cbh). \<forall>c'. map_of cbh h' = Some c' \<longrightarrow> name c' = name c \<longrightarrow> h \<le> h'"
      by blast
    then have "\<forall>h' c'. map_of cbh h' = Some c' \<longrightarrow> name c' = name c \<longrightarrow> h \<le> h'"
      using keys by blast
    with h(1) show "\<exists>h. map_of cbh h = Some c \<and>
      (\<forall>h' c'. map_of cbh h' = Some c' \<longrightarrow> name c' = name c \<longrightarrow> h \<le> h')" by blast
  qed
  with dist each show ?thesis unfolding out by blast
qed

subsection \<open>The whole call\<close>

lemma fillHues_less: "h \<in> set (fillHues r) \<Longrightarrow> h < 360"
  by (auto simp: fillHues_def fillFrom_eq Let_def)

lemma neededHues_less: "h \<in> set (neededHues s l c) \<Longrightarrow> h < 360"
  by (auto simp: neededHues_def coarseHues_less fillHues_less)

lemma fetchBatch_coarse_cached:
  assumes "\<forall>h\<in>set coarseHues. cache st (h, s, l) \<noteq> None"
  shows "fetchBatch rem s l coarseHues [] st = (Inr (cachedCoarse s l (cache st)), st)"
  unfolding fetchBatch_cached [OF assms] cachedCoarse_def splitCached_eq by simp

lemma firstError_Some:
  "firstError rem ks = Some e \<Longrightarrow> \<exists>k\<in>set ks. lookup rem k = Inl e"
  by (induction ks) (auto split: sum.splits)

lemma firstError_fails:
  "k \<in> set ks \<Longrightarrow> lookup rem k = Inl e \<Longrightarrow> firstError rem ks \<noteq> None"
  by (induction ks) (auto split: sum.splits)

lemma fetchDistinctColors_outcome:
  assumes "fetchDistinctColors rem s l st = (res, st')"
  shows "\<exists>new. outcome rem st (errorOf res) st' new"
proof -
  obtain r1 st1 where r: "resolveHues rem s l st = (r1, st1)"
    by (cases "resolveHues rem s l st") auto
  from resolveHues_outcome [OF r] obtain new where o: "outcome rem st (errorOf r1) st1 new" by blast
  have "errorOf res = errorOf r1 \<and> st' = st1"
    using assms r by (cases r1) (auto simp: fetchDistinctColors_def)
  with o show ?thesis by auto
qed

lemma fetchDistinctColors_new:
  assumes run: "fetchDistinctColors rem s l st = (res, st')"
    and new: "calls st' = calls st @ new"
  shows "outcome rem st (errorOf res) st' new"
proof -
  from fetchDistinctColors_outcome [OF run] obtain new' where o: "outcome rem st (errorOf res) st' new'"
    by blast
  then have "calls st' = calls st @ new'" by (simp add: outcome_def extends_def)
  with new have "new' = new" by simp
  with o show ?thesis by simp
qed

lemma fetchDistinctColors_success:
  assumes "fetchDistinctColors rem s l st = (Inr out, st')"
  shows "\<exists>cbh. resolveHues rem s l st = (Inr cbh, st') \<and> out = collectDistinct cbh"
proof -
  obtain r1 st1 where r: "resolveHues rem s l st = (r1, st1)"
    by (cases "resolveHues rem s l st") auto
  show ?thesis using assms r by (cases r1) (auto simp: fetchDistinctColors_def)
qed

subsection \<open>The output as a function of the cache\<close>

lemma name_sampleColor [simp]: "name (sampleColor h n) = n"
  by (simp add: sampleColor_def)

lemma coarseHues_list:
  "coarseHues = [0, 10, 20, 30, 40, 50, 60, 70, 80, 90, 100, 110, 120, 130, 140, 150, 160, 170,
     180, 190, 200, 210, 220, 230, 240, 250, 260, 270, 280, 290, 300, 310, 320, 330, 340, 350]"
  by (simp add: coarseHues_def coarseFrom.simps)

lemma collectFrom_fold:
  "\<forall>h\<in>set hs. map_of cbh h = Some (g h) \<Longrightarrow> collectFrom cbh hs acc = fold collectStep (map g hs) acc"
  by (induction hs arbitrary: acc) (auto simp: collectStep_def)

lemma output_by_cache:
  assumes "fetchDistinctColors rem s l st = (Inr out, st')"
  shows "out = outputOf s l (cache st')"
proof -
  from fetchDistinctColors_success [OF assms] obtain cbh where
    r: "resolveHues rem s l st = (Inr cbh, st')" and out: "out = collectDistinct cbh" by blast
  let ?N = "neededHues s l (cache st')"
  from resolveHues_outcome [OF r] have
    m: "map_of cbh = (\<lambda>h. if h \<in> set ?N then cache st' (h, s, l) else None)"
    and all: "\<forall>h\<in>set ?N. cache st' (h, s, l) \<noteq> None"
    and d: "distinct (map fst cbh)" by blast+
  have "set (map fst cbh) = dom (map_of cbh)" by (simp add: dom_map_of_conv_image_fst)
  also have "\<dots> = set ?N" unfolding m using all by (auto simp: dom_def)
  finally have keys: "set (map fst cbh) = set ?N" .
  have "sort (map fst cbh) = sort (remdups ?N)"
    using d keys by (intro sorted_distinct_set_unique) simp_all
  then have sh: "sortedHues cbh = sort (remdups ?N)" by (simp add: sortedHues_def)
  have "\<forall>h\<in>set (sort (remdups ?N)). map_of cbh h = Some (the (cache st' (h, s, l)))"
    unfolding m using all by auto
  from collectFrom_fold [OF this] show ?thesis
    unfolding out collectDistinct_def sh outputOf_def by simp
qed

lemma boundaryRanges_zip:
  "boundaryRanges cbh =
     concat (map (\<lambda>(cur, nxt). case (map_of cbh cur, map_of cbh nxt) of
                     (Some currentColor, Some nextColor) \<Rightarrow>
                        if name currentColor \<noteq> ''Unnamed'' \<and> name currentColor \<noteq> name nextColor
                        then [\<lparr> range_start = cur, range_end = nxt \<rparr>] else []
                   | _ \<Rightarrow> [])
             (zip coarseHues (rotate1 coarseHues)))"
proof -
  have "map (boundaryAt cbh coarseHues) [0..<length coarseHues] =
        map (\<lambda>(cur, nxt). case (map_of cbh cur, map_of cbh nxt) of
                     (Some currentColor, Some nextColor) \<Rightarrow>
                        if name currentColor \<noteq> ''Unnamed'' \<and> name currentColor \<noteq> name nextColor
                        then [\<lparr> range_start = cur, range_end = nxt \<rparr>] else []
                   | _ \<Rightarrow> [])
             (zip coarseHues (rotate1 coarseHues))"
    by (rule nth_equalityI) (simp_all add: boundaryAt_def Let_def nth_rotate1)
  then show ?thesis by (simp add: boundaryRanges_def)
qed

lemma boundaryRanges_by_name:
  assumes "\<forall>h\<in>set coarseHues. \<exists>c. map_of cbh h = Some c \<and> name c = f h"
  shows "boundaryRanges cbh =
     concat (map (\<lambda>(cur, nxt). if f cur \<noteq> ''Unnamed'' \<and> f cur \<noteq> f nxt
                                then [\<lparr> range_start = cur, range_end = nxt \<rparr>] else [])
             (zip coarseHues (rotate1 coarseHues)))"
  unfolding boundaryRanges_zip
proof (rule arg_cong [where f = concat], rule map_cong [OF refl])
  fix p assume "p \<in> set (zip coarseHues (rotate1 coarseHues))"
  then have "(fst p, snd p) \<in> set (zip coarseHues (rotate1 coarseHues))" by simp
  then have "fst p \<in> set coarseHues" "snd p \<in> set (rotate1 coarseHues)"
    by (rule set_zip_leftD, rule set_zip_rightD)
  then obtain c n where "map_of cbh (fst p) = Some c" "name c = f (fst p)"
    "map_of cbh (snd p) = Some n" "name n = f (snd p)"
    using assms by (metis set_rotate1)
  then show "(case p of (cur, nxt) \<Rightarrow> case (map_of cbh cur, map_of cbh nxt) of
                     (Some currentColor, Some nextColor) \<Rightarrow>
                        if name currentColor \<noteq> ''Unnamed'' \<and> name currentColor \<noteq> name nextColor
                        then [\<lparr> range_start = cur, range_end = nxt \<rparr>] else []
                   | _ \<Rightarrow> []) =
             (case p of (cur, nxt) \<Rightarrow> if f cur \<noteq> ''Unnamed'' \<and> f cur \<noteq> f nxt
                                then [\<lparr> range_start = cur, range_end = nxt \<rparr>] else [])"
    by (cases p) simp
qed

lemma twoTone_ranges:
  assumes "\<forall>h\<in>set coarseHues. \<exists>c. map_of cbh h = Some c \<and> name c = twoTone h"
  shows "boundaryRanges cbh = [\<lparr> range_start = 10, range_end = 20 \<rparr>, \<lparr> range_start = 350, range_end = 0 \<rparr>]"
  unfolding boundaryRanges_by_name [OF assms] by (simp add: coarseHues_list twoTone_def)

lemma fill_10_20: "fillHues \<lparr> range_start = 10, range_end = 20 \<rparr> = [11, 12, 13, 14, 15, 16, 17, 18, 19]"
  by (simp add: fillHues_def fillFrom.simps)

lemma fill_350_0: "fillHues \<lparr> range_start = 350, range_end = 0 \<rparr> = [351, 352, 353, 354, 355, 356, 357, 358, 359]"
  by (simp add: fillHues_def fillFrom.simps)

lemma twoToneState_needed:
  "neededHues 50 50 (cache twoToneState) = coarseHues @ [11, 12, 13, 14, 15, 16, 17, 18, 19] @ [351, 352, 353, 354, 355, 356, 357, 358, 359]"
proof -
  have "\<forall>h\<in>set coarseHues. \<exists>c. map_of (cachedCoarse 50 50 (cache twoToneState)) h = Some c \<and> name c = twoTone h"
    by (auto simp: map_of_cachedCoarse twoToneState_def coarseHues_less)
  from twoTone_ranges [OF this] show ?thesis
    by (simp add: neededHues_def fill_10_20 fill_350_0)
qed

lemma twoToneState_output:
  "outputOf 50 50 (cache twoToneState) = [sampleColor 0 ''Red'', sampleColor 15 ''Orange'']"
  unfolding outputOf_def twoToneState_needed coarseHues_list
  by (simp add: twoToneState_def collectStep_def twoTone_def)

subsection \<open>Runs on the example inputs\<close>

lemma coarseState_coarse: "\<forall>h\<in>set coarseHues. cache coarseState (h, 50, 50) \<noteq> None"
  by (simp add: coarseHues_list coarseState_def)

lemma coarseState_ranges:
  "boundaryRanges (cachedCoarse 50 50 (cache coarseState)) =
     [\<lparr> range_start = 10, range_end = 20 \<rparr>, \<lparr> range_start = 350, range_end = 0 \<rparr>]"
proof -
  have "\<forall>h\<in>set coarseHues. \<exists>c. map_of (cachedCoarse 50 50 (cache coarseState)) h = Some c \<and> name c = twoTone h"
    unfolding map_of_cachedCoarse by (simp add: coarseHues_list coarseState_def)
  then show ?thesis by (rule twoTone_ranges)
qed

lemma okResponse_data: "colorDataOf h 50 50 (okResponse n) = Inr (sampleColor h (if n = [] then ''Unnamed'' else n))"
  by (simp add: colorDataOf_def okResponse_def response_ok_def nameOrUnnamed_def sampleColor_def)

lemma colorDataOf_Aborted: "colorDataOf h s l Aborted = Inl AbortError"
  by (simp add: colorDataOf_def)

lemma colorDataOf_500: "colorDataOf h s l (Response 500 body) = Inl (ApiError 500)"
  by (simp add: colorDataOf_def response_ok_def)

lemma coarseState_uncached: "h mod 10 \<noteq> 0 \<Longrightarrow> cache coarseState (h, 50, 50) = None"
  by (simp add: coarseState_def)

lemma coarseState_calls: "calls coarseState = []"
  by (simp add: coarseState_def)

lemma abort_run:
  "fetchDistinctColors abortFrom15 50 50 coarseState = (Inl AbortError, abortedState)"
proof -
  have "fetchBatch abortFrom15 50 50 [11, 12, 13, 14, 15, 16, 17, 18, 19] (cachedCoarse 50 50 (cache coarseState)) coarseState =
     (Inl AbortError, abortedState)"
    unfolding abortedState_def
    by (simp add: fetchBatch_def fetchChunks.simps promiseAll_def fetchColorData_start_def
        fetchColorData_settle_def BATCH_SIZE_def coarseState_uncached coarseState_calls abortFrom15_def
        okResponse_data twoTone_def colorDataOf_Aborted)
  then show ?thesis
    by (simp add: fetchDistinctColors_def resolveHues_def fetchBatch_coarse_cached [OF coarseState_coarse]
        coarseState_ranges fill_10_20)
qed

lemma failed_run:
  "fetchDistinctColors failAt15 50 50 coarseState = (Inl (ApiError 500), failedState)"
proof -
  have "fetchBatch failAt15 50 50 [11, 12, 13, 14, 15, 16, 17, 18, 19] (cachedCoarse 50 50 (cache coarseState)) coarseState =
     (Inl (ApiError 500), failedState)"
    unfolding failedState_def
    by (simp add: fetchBatch_def fetchChunks.simps promiseAll_def fetchColorData_start_def
        fetchColorData_settle_def BATCH_SIZE_def coarseState_uncached coarseState_calls failAt15_def
        okResponse_data twoTone_def colorDataOf_500)
  then show ?thesis
    by (simp add: fetchDistinctColors_def resolveHues_def fetchBatch_coarse_cached [OF coarseState_coarse]
        coarseState_ranges fill_10_20)
qed

lemma refined_phase3:
  "\<exists>cbh. refineRanges twoToneRemote 50 50
          [\<lparr> range_start = 10, range_end = 20 \<rparr>, \<lparr> range_start = 350, range_end = 0 \<rparr>]
          (cachedCoarse 50 50 (cache coarseState)) coarseState = (Inr cbh, refinedState)"
  unfolding refinedState_def
  by (simp add: fill_10_20 fill_350_0 fetchBatch_def fetchChunks.simps promiseAll_def fetchColorData_start_def
      fetchColorData_settle_def BATCH_SIZE_def coarseState_uncached coarseState_calls twoToneRemote_def
      okResponse_data twoTone_def)

lemma refined_run:
  "\<exists>cbh. resolveHues twoToneRemote 50 50 coarseState = (Inr cbh, refinedState)"
  using refined_phase3
  by (simp add: resolveHues_def fetchBatch_coarse_cached [OF coarseState_coarse] coarseState_ranges)

lemma fetchDistinctColors_cached:
  assumes "\<forall>h\<in>set (neededHues s l (cache st)). cache st (h, s, l) \<noteq> None"
  shows "fetchDistinctColors rem s l st = (Inr (outputOf s l (cache st)), st)"
proof -
  from resolveHues_cached [OF assms] obtain cbh where
    r: "resolveHues rem s l st = (Inr cbh, st)" by blast
  then have run: "fetchDistinctColors rem s l st = (Inr (collectDistinct cbh), st)"
    by (simp add: fetchDistinctColors_def)
  from output_by_cache [OF run] show ?thesis using run by simp
qed

lemma twoToneState_run:
  "fetchDistinctColors rem 50 50 twoToneState =
     (Inr [sampleColor 0 ''Red'', sampleColor 15 ''Orange''], twoToneState)"
proof -
  have "\<forall>h\<in>set (neededHues 50 50 (cache twoToneState)). cache twoToneState (h, 50, 50) \<noteq> None"
    by (auto simp: twoToneState_def dest: neededHues_less)
  from fetchDistinctColors_cached [OF this] show ?thesis by (simp add: twoToneState_output)
qed

lemma almostState_cache:
  "cache almostState (h, 50, 50) = (if h < 360 \<and> h \<noteq> 15 then Some (sampleColor h (twoTone h)) else None)"
  by (simp add: almostState_def)

lemma almostState_calls: "calls almostState = []"
  by (simp add: almostState_def)

lemma completedState_cache: "cache completedState = cache twoToneState"
  by (rule ext) (auto simp: completedState_def almostState_def twoToneState_def twoTone_def)

lemma almost_run:
  "fetchDistinctColors twoToneRemote 50 50 almostState =
     (Inr [sampleColor 0 ''Red'', sampleColor 15 ''Orange''], completedState)"
proof -
  have co: "\<forall>h\<in>set coarseHues. cache almostState (h, 50, 50) \<noteq> None"
    by (simp add: coarseHues_list almostState_cache)
  have "\<forall>h\<in>set coarseHues. \<exists>c. map_of (cachedCoarse 50 50 (cache almostState)) h = Some c \<and> name c = twoTone h"
    unfolding map_of_cachedCoarse by (simp add: coarseHues_list almostState_cache)
  then have ranges: "boundaryRanges (cachedCoarse 50 50 (cache almostState)) =
     [\<lparr> range_start = 10, range_end = 20 \<rparr>, \<lparr> range_start = 350, range_end = 0 \<rparr>]"
    by (rule twoTone_ranges)
  have "\<exists>cbh. refineRanges twoToneRemote 50 50
          [\<lparr> range_start = 10, range_end = 20 \<rparr>, \<lparr> range_start = 350, range_end = 0 \<rparr>]
          (cachedCoarse 50 50 (cache almostState)) almostState = (Inr cbh, completedState)"
    unfolding completedState_def
    by (simp add: fill_10_20 fill_350_0 fetchBatch_def fetchChunks.simps promiseAll_def
        fetchColorData_start_def fetchColorData_settle_def BATCH_SIZE_def almostState_cache
        almostState_calls twoToneRemote_def okResponse_data twoTone_def)
  then obtain cbh where "resolveHues twoToneRemote 50 50 almostState = (Inr cbh, completedState)"
    by (auto simp: resolveHues_def fetchBatch_coarse_cached [OF co] ranges)
  then have run: "fetchDistinctColors twoToneRemote 50 50 almostState = (Inr (collectDistinct cbh), completedState)"
    by (simp add: fetchDistinctColors_def)
  from output_by_cache [OF run] have "collectDistinct cbh = [sampleColor 0 ''Red'', sampleColor 15 ''Orange'']"
    by (simp add: completedState_cache twoToneState_output)
  with run show ?thesis by simp
qed

lemma unnamedState_ranges:
  "boundaryRanges (cachedCoarse 50 50 (cache unnamedState)) =
     [\<lparr> range_start = 0, range_end = 10 \<rparr>, \<lparr> range_start = 350, range_end = 0 \<rparr>]"
proof -
  have "\<forall>h\<in>set coarseHues. \<exists>c. map_of (cachedCoarse 50 50 (cache unnamedState)) h = Some c \<and> name c = unnamedTone h"
    unfolding map_of_cachedCoarse by (simp add: coarseHues_list unnamedState_def)
  from boundaryRanges_by_name [OF this] show ?thesis
    by (simp add: coarseHues_list unnamedTone_def)
qed

subsection \<open>Interleaved lookups\<close>

text \<open>
  A cached value survives every event that does not disturb its key, and a lookup of a
  cached key returns the cached value without touching the state.
\<close>

lemma step_keeps:
  assumes "cache st k = Some c" and "\<not> disturbs k e"
  shows "cache (step e st) k = Some c"
proof (cases e)
  case (Begin h s l)
  then show ?thesis using assms(1)
    by (simp add: step_def fetchColorData_start_def split: option.splits)
next
  case (Settle rem p)
  show ?thesis
  proof (cases p)
    case (Resolved v)
    then show ?thesis using assms(1) Settle by (simp add: step_def fetchColorData_settle_def)
  next
    case (InFlight h s l)
    with assms(2) Settle have "(h, s, l) \<noteq> k" by (simp add: disturbs_def)
    then show ?thesis using assms(1) Settle InFlight
      by (auto simp: step_def fetchColorData_settle_def split: sum.splits)
  qed
next
  case Clear
  then show ?thesis using assms(2) by (simp add: disturbs_def)
qed

lemma runEvents_keeps:
  assumes "cache st k = Some c" and "\<forall>e\<in>set evs. \<not> disturbs k e"
  shows "cache (runEvents evs st) k = Some c"
  using assms unfolding runEvents_def
  by (induction evs arbitrary: st) (simp_all add: step_keeps)

lemma fetchColorData_stores:
  "fetchColorData rem h s l st = (Inr c, st1) \<Longrightarrow> cache st1 (h, s, l) = Some c"
  by (auto simp: fetchColorData_def fetchColorData_start_def fetchColorData_settle_def
      split: option.splits sum.splits)

lemma fetchColorData_hit:
  "cache st (h, s, l) = Some c \<Longrightarrow> fetchColorData rem h s l st = (Inr c, st)"
  by (simp add: fetchColorData_def fetchColorData_start_def fetchColorData_settle_def)

subsection \<open>Completeness of Phase 4\<close>

text \<open>
  The set of seen names only grows, and every named colour among the visited hues ends
  up in it; so each non-sentinel name of the map has an entry in the output.
\<close>

lemma collectFrom_mono: "fst acc \<subseteq> fst (collectFrom cbh hs acc)"
proof (induction hs arbitrary: acc)
  case Nil
  then show ?case by simp
next
  case (Cons h hs)
  have "fst acc \<subseteq> insert n (fst acc)" for n by auto
  then show ?case using Cons [of acc] Cons [of "(insert (name c) (fst acc), snd acc @ [c])" for c]
    by (auto split: option.splits)
qed

lemma collectFrom_complete:
  assumes "h \<in> set hs" and "map_of cbh h = Some c" and "name c \<noteq> []" and "name c \<noteq> ''Unnamed''"
  shows "name c \<in> fst (collectFrom cbh hs acc)"
  using assms(1)
proof (induction hs arbitrary: acc)
  case Nil
  then show ?case by simp
next
  case (Cons x xs)
  show ?case
  proof (cases "x = h")
    case True
    show ?thesis
    proof (cases "name c \<in> fst acc")
      case True
      with collectFrom_mono [of acc cbh "x # xs"] show ?thesis by blast
    next
      case False
      have "name c \<in> fst (insert (name c) (fst acc), snd acc @ [c])" by simp
      with collectFrom_mono [of "(insert (name c) (fst acc), snd acc @ [c])" cbh xs]
      have "name c \<in> fst (collectFrom cbh xs (insert (name c) (fst acc), snd acc @ [c]))" by blast
      then show ?thesis using \<open>x = h\<close> False assms(2,3,4) by simp
    qed
  next
    case False
    with Cons.prems have "h \<in> set xs" by simp
    from Cons.IH [OF this] show ?thesis by (auto split: option.splits)
  qed
qed

lemma collectDistinct_complete:
  assumes "map_of cbh h = Some c" and "name c \<noteq> []" and "name c \<noteq> ''Unnamed''"
  shows "\<exists>c'\<in>set (collectDistinct cbh). name c' = name c"
proof -
  have "sorted (sortedHues cbh)" by (simp add: sortedHues_def)
  from collectFrom_spec [OF this, of cbh "{}" "[]"] obtain new where
    run: "collectFrom cbh (sortedHues cbh) ({}, []) = ({} \<union> name ` set new, [] @ new)" by blast
  have "h \<in> set (sortedHues cbh)"
    using map_of_SomeD [OF assms(1)] by (force simp: sortedHues_def)
  from collectFrom_complete [OF this assms, of "({}, [])"]
  have "name c \<in> name ` set new" unfolding run by simp
  moreover have "collectDistinct cbh = new" by (simp add: collectDistinct_def run)
  ultimately show ?thesis by auto
qed

section \<open>Properties of the engine\<close>

subsection \<open>C1: which adjacent coarse pairs become boundary ranges\<close>

lemma boundaryAt_iff:
  "boundaryAt cbh hs i \<noteq> [] \<longleftrightarrow>
     (\<exists>c n. map_of cbh (hs ! i) = Some c \<and> map_of cbh (hs ! ((i + 1) mod length hs)) = Some n \<and>
            name c \<noteq> ''Unnamed'' \<and> name c \<noteq> name n)"
  by (auto simp: boundaryAt_def Let_def split: option.splits)

text \<open>
  C1. Phase 2 is claimed to record a range for an adjacent pair of coarse points exactly when
  both labels are not the sentinel and differ, so that no range touches a point labelled
  \<^verbatim>\<open>Unnamed\<close>. The test in the code reads \<^verbatim>\<open>currentColor.name !== 'Unnamed'\<close> and
  compares the two names; it never looks at whether the next name is the sentinel
  (\<open>boundaryAt_iff\<close>). On coarse results that are red at 0, \<^verbatim>\<open>Unnamed\<close> at 10 and blue
  from 20 on, Phase 2 records the range from 0 to 10, whose end is the sentinel point, and
  the wrap range from 350 to 0, and it does not record the pair 10, 20.
\<close>

theorem C1_sentinel_end_recorded:
  "boundaryRanges (cachedCoarse 50 50 (cache unnamedState)) =
     [\<lparr> range_start = 0, range_end = 10 \<rparr>, \<lparr> range_start = 350, range_end = 0 \<rparr>]
   \<and> map_option name (cache unnamedState (10, 50, 50)) = Some ''Unnamed''"
proof -
  have "map_option name (cache unnamedState (10, 50, 50)) = Some ''Unnamed''"
    by (simp add: unnamedState_def unnamedTone_def)
  with unnamedState_ranges show ?thesis by blast
qed

subsection \<open>C2: writing the cache twice\<close>

text \<open>
  C2, as stated, fails. The write is \<^verbatim>\<open>cache.set(cacheKey, colorData)\<close>, which replaces.
  Two lookups of hue 5 that are both in flight (both passed the \<^verbatim>\<open>cache.has\<close> test on the
  empty cache) and settle with different answers leave the second answer in the cache.
\<close>

theorem C2_second_write_replaces:
  "fetchColorData_start 5 50 50 emptyState = (InFlight 5 50 50, emptyState\<lparr>calls := [(5, 50, 50)]\<rparr>)
   \<and> fetchColorData_start 5 50 50 (emptyState\<lparr>calls := [(5, 50, 50)]\<rparr>)
       = (InFlight 5 50 50, emptyState\<lparr>calls := [(5, 50, 50), (5, 50, 50)]\<rparr>)
   \<and> cache (snd (fetchColorData_settle redRemote (InFlight 5 50 50)
               (emptyState\<lparr>calls := [(5, 50, 50), (5, 50, 50)]\<rparr>))) (5, 50, 50)
       = Some (sampleColor 5 ''Red'')
   \<and> cache (snd (fetchColorData_settle blueRemote (InFlight 5 50 50)
               (snd (fetchColorData_settle redRemote (InFlight 5 50 50)
                  (emptyState\<lparr>calls := [(5, 50, 50), (5, 50, 50)]\<rparr>))))) (5, 50, 50)
       = Some (sampleColor 5 ''Blue'')
   \<and> sampleColor 5 ''Blue'' \<noteq> sampleColor 5 ''Red''"
  by (simp add: fetchColorData_start_def fetchColorData_settle_def emptyState_def redRemote_def
      blueRemote_def okResponse_data sampleColor_def)

text \<open>
  C2, amended. What keeps the first value is the test at the entry of
  \<^verbatim>\<open>fetchColorData\<close>, and it does so under a condition. Once a lookup of a key has
  returned a result, let any sequence of events follow (lookups started, lookups settled,
  of this key or of others) in which no request for this key that is in flight settles
  and the cache is not cleared. Then the cache still holds the first result for the key,
  and every lookup of the key, whatever the remote would answer now, sends no request,
  returns the first result and leaves the state as it is.
\<close>

theorem C2_first_value_kept:
  assumes first: "fetchColorData rem1 h s l st = (Inr c, st1)"
    and quiet: "\<forall>e\<in>set evs. \<not> disturbs (h, s, l) e"
  shows "cache st1 (h, s, l) = Some c \<and>
         cache (runEvents evs st1) (h, s, l) = Some c \<and>
         fetchColorData rem2 h s l (runEvents evs st1) = (Inr c, runEvents evs st1)"
proof -
  from fetchColorData_stores [OF first] have a: "cache st1 (h, s, l) = Some c" .
  from runEvents_keeps [OF a quiet] have b: "cache (runEvents evs st1) (h, s, l) = Some c" .
  from fetchColorData_hit [OF b] a b show ?thesis by simp
qed

text \<open>
  The witness looks hue 5 up (red), then lets a lookup of hue 7 start and settle (blue) and
  a second lookup of hue 5 start and settle from the cache; a lookup of hue 5 against a
  remote that answers blue still returns red.
\<close>

theorem C2_first_value_kept_witness:
  "fetchColorData redRemote 5 50 50 emptyState
     = (Inr (sampleColor 5 ''Red''),
        emptyState\<lparr>calls := [(5, 50, 50)], cache := [(5, 50, 50) \<mapsto> sampleColor 5 ''Red'']\<rparr>)
   \<and> cache (runEvents [Begin 7 50 50, Settle blueRemote (InFlight 7 50 50), Begin 5 50 50,
                        Settle blueRemote (Resolved (sampleColor 5 ''Red''))]
              (emptyState\<lparr>calls := [(5, 50, 50)], cache := [(5, 50, 50) \<mapsto> sampleColor 5 ''Red'']\<rparr>))
        (7, 50, 50) = Some (sampleColor 7 ''Blue'')
   \<and> cache (runEvents [Begin 7 50 50, Settle blueRemote (InFlight 7 50 50), Begin 5 50 50,
                        Settle blueRemote (Resolved (sampleColor 5 ''Red''))]
              (emptyState\<lparr>calls := [(5, 50, 50)], cache := [(5, 50, 50) \<mapsto> sampleColor 5 ''Red'']\<rparr>))
        (5, 50, 50) = Some (sampleColor 5 ''Red'')
   \<and> fst (fetchColorData blueRemote 5 50 50
        (runEvents [Begin 7 50 50, Settle blueRemote (InFlight 7 50 50), Begin 5 50 50,
                    Settle blueRemote (Resolved (sampleColor 5 ''Red''))]
           (emptyState\<lparr>calls := [(5, 50, 50)], cache := [(5, 50, 50) \<mapsto> sampleColor 5 ''Red'']\<rparr>)))
     = Inr (sampleColor 5 ''Red'')"
proof -
  let ?evs = "[Begin 7 50 50, Settle blueRemote (InFlight 7 50 50), Begin 5 50 50,
               Settle blueRemote (Resolved (sampleColor 5 ''Red''))]"
  let ?st1 = "emptyState\<lparr>calls := [(5, 50, 50)], cache := [(5, 50, 50) \<mapsto> sampleColor 5 ''Red'']\<rparr>"
  have run: "fetchColorData redRemote 5 50 50 emptyState = (Inr (sampleColor 5 ''Red''), ?st1)"
    by (simp add: fetchColorData_def fetchColorData_start_def fetchColorData_settle_def emptyState_def
        redRemote_def okResponse_data)
  have quiet: "\<forall>e\<in>set ?evs. \<not> disturbs (5, 50, 50) e"
    by (simp add: disturbs_def)
  have other: "cache (runEvents ?evs ?st1) (7, 50, 50) = Some (sampleColor 7 ''Blue'')"
    by (simp add: runEvents_def step_def fetchColorData_start_def fetchColorData_settle_def
        emptyState_def blueRemote_def okResponse_data)
  from C2_first_value_kept [OF run quiet, of blueRemote] run other show ?thesis by simp
qed

subsection \<open>C3: cancellation\<close>

text \<open>
  C3. The engine sees a cancellation as the rejection of a request with \<^verbatim>\<open>AbortError\<close>.
  If a request of the call is aborted, and every request of the call that is rejected
  is rejected by the abort, then the call ends with \<^verbatim>\<open>AbortError\<close> and returns no list
  of colours; every entry the cache had at entry is still there with the same value,
  and so is the result of every request of the call that succeeded.
\<close>

theorem C3_cancelled:
  assumes run: "fetchDistinctColors rem s l st = (res, st')"
    and new: "calls st' = calls st @ new"
    and k: "k \<in> set new" and ab: "rem k = Aborted"
    and only: "\<forall>k'\<in>set new. \<forall>e. lookup rem k' = Inl e \<longrightarrow> rem k' = Aborted"
  shows "res = Inl AbortError \<and> cache st \<subseteq>\<^sub>m cache st' \<and>
         (\<forall>k'\<in>set new. \<forall>c. lookup rem k' = Inr c \<longrightarrow> cache st' k' = Some c)"
proof -
  note o = fetchDistinctColors_new [OF run new]
  then have fe: "firstError rem new = errorOf res" and ex: "extends rem st st' new"
    by (simp_all add: outcome_def)
  have ka: "lookup rem k = Inl AbortError"
    using ab by (cases k) (simp add: lookup_def colorDataOf_def)
  from firstError_fails [OF k ka] obtain e where e: "firstError rem new = Some e" by auto
  from firstError_Some [OF e] obtain k' where k': "k' \<in> set new" "lookup rem k' = Inl e" by blast
  with only have "rem k' = Aborted" by blast
  then have "lookup rem k' = Inl AbortError" by (cases k') (simp add: lookup_def colorDataOf_def)
  with k' have "e = AbortError" by simp
  with e fe have "res = Inl AbortError" by (cases res) simp_all
  moreover have "cache st \<subseteq>\<^sub>m cache st'" using o by (rule outcome_map_le)
  moreover have "\<forall>k'\<in>set new. \<forall>c. lookup rem k' = Inr c \<longrightarrow> cache st' k' = Some c"
    using ex by (auto simp: extends_def stored_def)
  ultimately show ?thesis by blast
qed

text \<open>
  The witness cancels in the middle of Phase 3: the coarse points are cached, the requests
  for the hues 11 to 14 succeed and those from 15 on are aborted.
\<close>

theorem C3_cancelled_witness:
  "fetchDistinctColors abortFrom15 50 50 coarseState = (Inl AbortError, abortedState)
   \<and> cache coarseState \<subseteq>\<^sub>m cache abortedState
   \<and> cache abortedState (0, 50, 50) = Some (sampleColor 0 ''Red'')
   \<and> cache abortedState (12, 50, 50) = Some (sampleColor 12 ''Red'')"
proof -
  let ?new = "[(11, 50, 50), (12, 50, 50), (13, 50, 50), (14, 50, 50), (15, 50, 50), (16, 50, 50),
               (17, 50, 50), (18, 50, 50), (19, 50, 50)] :: key list"
  have new: "calls abortedState = calls coarseState @ ?new"
    by (simp add: abortedState_def coarseState_def)
  have k: "(15, 50, 50) \<in> set ?new" by simp
  have ab: "abortFrom15 (15, 50, 50) = Aborted" by (simp add: abortFrom15_def)
  have only: "\<forall>k'\<in>set ?new. \<forall>e. lookup abortFrom15 k' = Inl e \<longrightarrow> abortFrom15 k' = Aborted"
    by (simp add: lookup_def abortFrom15_def okResponse_data)
  from C3_cancelled [OF abort_run new k ab only]
  have le: "cache coarseState \<subseteq>\<^sub>m cache abortedState"
    and kept: "\<forall>k'\<in>set ?new. \<forall>c. lookup abortFrom15 k' = Inr c \<longrightarrow> cache abortedState k' = Some c"
    by blast+
  have "lookup abortFrom15 (12, 50, 50) = Inr (sampleColor 12 ''Red'')"
    by (simp add: lookup_def abortFrom15_def okResponse_data twoTone_def)
  with kept have "cache abortedState (12, 50, 50) = Some (sampleColor 12 ''Red'')" by simp
  moreover have "cache coarseState (0, 50, 50) = Some (sampleColor 0 ''Red'')"
    by (simp add: coarseState_def twoTone_def)
  with le have "cache abortedState (0, 50, 50) = Some (sampleColor 0 ''Red'')"
    by (auto simp: map_le_def dom_def)
  ultimately show ?thesis using abort_run le by simp
qed

subsection \<open>C4: the interior points of a range\<close>

text \<open>
  C4. For a range between two domain points the hues that Phase 3 enumerates are exactly
  the points strictly between start and end, in ascending order; when the end is below the
  start they run from start + 1 up to 359 and go on from 0 up to end - 1. The range from
  350 to 0 gives the nine points 351 to 359.
\<close>

theorem C4_interior_points:
  "(range_start r < 360 \<longrightarrow> range_end r < 360 \<longrightarrow>
     fillHues r =
       (if range_start r \<le> range_end r then [range_start r + 1..<range_end r]
        else [range_start r + 1..<360] @ [0..<range_end r]))
   \<and> fillHues \<lparr> range_start = 350, range_end = 0 \<rparr> = [351, 352, 353, 354, 355, 356, 357, 358, 359]"
  using fillHues_closed [of r] fill_350_0 by blast

theorem C4_interior_points_witness:
  "fillHues \<lparr> range_start = 10, range_end = 20 \<rparr> = [11, 12, 13, 14, 15, 16, 17, 18, 19]
   \<and> fillHues \<lparr> range_start = 358, range_end = 2 \<rparr> = [359, 0, 1]"
proof -
  have a: "fillHues \<lparr> range_start = 10, range_end = 20 \<rparr> = [11..<20]"
    using C4_interior_points [of "\<lparr> range_start = 10, range_end = 20 \<rparr>"] by simp
  have b: "fillHues \<lparr> range_start = 358, range_end = 2 \<rparr> = [359..<360] @ [0..<2]"
    using C4_interior_points [of "\<lparr> range_start = 358, range_end = 2 \<rparr>"] by simp
  show ?thesis unfolding a b by (simp add: upt_rec)
qed

subsection \<open>C5: a failed lookup\<close>

lemma lookup_failure:
  assumes "rem k = NetworkFailure \<or>
     (\<exists>status body. rem k = Response status body \<and>
        (\<not> response_ok status \<or> body = JsonSyntaxError \<or> body = JsonNull \<or>
         (\<exists>d. body = JsonData d \<and>
            (data_rgb d = None \<or> data_name d = None \<or> data_hex d = None \<or> data_hsl d = None))))"
  shows "\<exists>e. lookup rem k = Inl e"
  using assms by (cases k) (auto simp: lookup_def colorDataOf_def split: option.splits)

text \<open>
  C5. If a request that the call sent fails (the network fails, the status is not a
  success status, the body is not JSON, or the document is null or lacks one of the objects
  \<^verbatim>\<open>rgb\<close>, \<^verbatim>\<open>name\<close>, \<^verbatim>\<open>hex\<close>, \<^verbatim>\<open>hsl\<close> that the code reads), then the call ends
  with an error and returns no list of colours. No key is requested twice within the
  call, so the failed lookup is not retried. Every entry the cache had at entry is still
  there with the same value, and so is the result of every request of the call that succeeded.
\<close>

theorem C5_failed_lookup:
  assumes run: "fetchDistinctColors rem s l st = (res, st')"
    and new: "calls st' = calls st @ new"
    and k: "k \<in> set new"
    and fails: "rem k = NetworkFailure \<or>
     (\<exists>status body. rem k = Response status body \<and>
        (\<not> response_ok status \<or> body = JsonSyntaxError \<or> body = JsonNull \<or>
         (\<exists>d. body = JsonData d \<and>
            (data_rgb d = None \<or> data_name d = None \<or> data_hex d = None \<or> data_hsl d = None))))"
  shows "(\<exists>e. res = Inl e) \<and> distinct new \<and> cache st \<subseteq>\<^sub>m cache st' \<and>
         (\<forall>k'\<in>set new. \<forall>c. lookup rem k' = Inr c \<longrightarrow> cache st' k' = Some c)"
proof -
  note o = fetchDistinctColors_new [OF run new]
  then have fe: "firstError rem new = errorOf res" and ex: "extends rem st st' new"
    and d: "distinct new"
    by (simp_all add: outcome_def)
  from lookup_failure [of rem k, OF fails] obtain e where "lookup rem k = Inl e" by blast
  from firstError_fails [OF k this] fe have "\<exists>e. res = Inl e" by (cases res) simp_all
  moreover have "cache st \<subseteq>\<^sub>m cache st'" using o by (rule outcome_map_le)
  moreover have "\<forall>k'\<in>set new. \<forall>c. lookup rem k' = Inr c \<longrightarrow> cache st' k' = Some c"
    using ex by (auto simp: extends_def stored_def)
  ultimately show ?thesis using d by blast
qed

text \<open>
  The witness: the coarse points are cached and the service answers the request for hue 15
  with status 500, in the first batch of Phase 3.
\<close>

theorem C5_failed_lookup_witness:
  "fetchDistinctColors failAt15 50 50 coarseState = (Inl (ApiError 500), failedState)
   \<and> distinct (calls failedState)
   \<and> cache coarseState \<subseteq>\<^sub>m cache failedState
   \<and> cache failedState (16, 50, 50) = Some (sampleColor 16 ''Orange'')"
proof -
  let ?new = "[(11, 50, 50), (12, 50, 50), (13, 50, 50), (14, 50, 50), (15, 50, 50), (16, 50, 50),
               (17, 50, 50), (18, 50, 50), (19, 50, 50)] :: key list"
  have new: "calls failedState = calls coarseState @ ?new"
    by (simp add: failedState_def coarseState_def)
  have k: "(15, 50, 50) \<in> set ?new" by simp
  have fails: "failAt15 (15, 50, 50) = NetworkFailure \<or>
     (\<exists>status body. failAt15 (15, 50, 50) = Response status body \<and>
        (\<not> response_ok status \<or> body = JsonSyntaxError \<or> body = JsonNull \<or>
         (\<exists>d. body = JsonData d \<and>
            (data_rgb d = None \<or> data_name d = None \<or> data_hex d = None \<or> data_hsl d = None))))"
    by (simp add: failAt15_def response_ok_def)
  from C5_failed_lookup [OF failed_run new k fails]
  have d: "distinct ?new" and le: "cache coarseState \<subseteq>\<^sub>m cache failedState"
    and kept: "\<forall>k'\<in>set ?new. \<forall>c. lookup failAt15 k' = Inr c \<longrightarrow> cache failedState k' = Some c"
    by blast+
  have "lookup failAt15 (16, 50, 50) = Inr (sampleColor 16 ''Orange'')"
    by (simp add: lookup_def failAt15_def okResponse_data twoTone_def)
  with kept have "cache failedState (16, 50, 50) = Some (sampleColor 16 ''Orange'')" by simp
  moreover have "calls failedState = ?new" by (simp add: failedState_def)
  ultimately show ?thesis using failed_run le d by simp
qed

subsection \<open>C6: the output sequence\<close>

text \<open>
  C6. When the call returns a list, that list is Phase 4 run on the map
  \<^verbatim>\<open>colorsByHue\<close> of all points resolved by Phases 1 to 3. No entry of the list has an
  empty name or the name \<^verbatim>\<open>Unnamed\<close>, no two entries have the same name, every entry
  is the colour resolved at the smallest hue among the resolved hues that carry its name,
  and every name other than the empty one and \<^verbatim>\<open>Unnamed\<close> that a resolved point carries
  has an entry in the list. So the list holds exactly one entry for each such name.
\<close>

theorem C6_output:
  assumes "fetchDistinctColors rem s l st = (Inr out, st')"
  shows "\<exists>cbh. resolveHues rem s l st = (Inr cbh, st') \<and>
           (\<forall>c\<in>set out. name c \<noteq> [] \<and> name c \<noteq> ''Unnamed'') \<and>
           distinct (map name out) \<and>
           (\<forall>c\<in>set out. \<exists>h. map_of cbh h = Some c \<and>
              (\<forall>h' c'. map_of cbh h' = Some c' \<longrightarrow> name c' = name c \<longrightarrow> h \<le> h')) \<and>
           (\<forall>h c. map_of cbh h = Some c \<longrightarrow> name c \<noteq> [] \<longrightarrow> name c \<noteq> ''Unnamed'' \<longrightarrow>
              (\<exists>c'\<in>set out. name c' = name c))"
proof -
  from fetchDistinctColors_success [OF assms] obtain cbh where
    r: "resolveHues rem s l st = (Inr cbh, st')" and out: "out = collectDistinct cbh" by blast
  have "\<forall>h c. map_of cbh h = Some c \<longrightarrow> name c \<noteq> [] \<longrightarrow> name c \<noteq> ''Unnamed'' \<longrightarrow>
              (\<exists>c'\<in>set (collectDistinct cbh). name c' = name c)"
    using collectDistinct_complete by blast
  then show ?thesis using r collectDistinct_spec [of cbh] unfolding out by blast
qed

text \<open>
  The witness runs on the fully cached two-tone domain: orange is held by the coarse points
  from 20 on and by the refined points 15 to 19, and its representative is hue 15; the
  resolved points carry no name besides red and orange.
\<close>

theorem C6_output_witness:
  "fetchDistinctColors twoToneRemote 50 50 twoToneState
     = (Inr [sampleColor 0 ''Red'', sampleColor 15 ''Orange''], twoToneState)
   \<and> distinct (map name [sampleColor 0 ''Red'', sampleColor 15 ''Orange''])
   \<and> (\<exists>cbh. resolveHues twoToneRemote 50 50 twoToneState = (Inr cbh, twoToneState) \<and>
         (\<exists>h. map_of cbh h = Some (sampleColor 15 ''Orange'') \<and>
            (\<forall>h' c'. map_of cbh h' = Some c' \<longrightarrow> name c' = ''Orange'' \<longrightarrow> h \<le> h')) \<and>
         (\<forall>h c. map_of cbh h = Some c \<longrightarrow> name c \<noteq> [] \<longrightarrow> name c \<noteq> ''Unnamed'' \<longrightarrow>
            name c = ''Red'' \<or> name c = ''Orange''))"
proof -
  note run = twoToneState_run [of twoToneRemote]
  from C6_output [OF run] obtain cbh where
    r: "resolveHues twoToneRemote 50 50 twoToneState = (Inr cbh, twoToneState)"
    and d: "distinct (map name [sampleColor 0 ''Red'', sampleColor 15 ''Orange''])"
    and m: "\<forall>c\<in>set [sampleColor 0 ''Red'', sampleColor 15 ''Orange'']. \<exists>h. map_of cbh h = Some c \<and>
              (\<forall>h' c'. map_of cbh h' = Some c' \<longrightarrow> name c' = name c \<longrightarrow> h \<le> h')"
    and e: "\<forall>h c. map_of cbh h = Some c \<longrightarrow> name c \<noteq> [] \<longrightarrow> name c \<noteq> ''Unnamed'' \<longrightarrow>
              (\<exists>c'\<in>set [sampleColor 0 ''Red'', sampleColor 15 ''Orange'']. name c' = name c)"
    by blast
  from m have m': "\<exists>h. map_of cbh h = Some (sampleColor 15 ''Orange'') \<and>
            (\<forall>h' c'. map_of cbh h' = Some c' \<longrightarrow> name c' = ''Orange'' \<longrightarrow> h \<le> h')"
    by simp
  from e have e': "\<forall>h c. map_of cbh h = Some c \<longrightarrow> name c \<noteq> [] \<longrightarrow> name c \<noteq> ''Unnamed'' \<longrightarrow>
            name c = ''Red'' \<or> name c = ''Orange''"
  proof (intro allI impI)
    fix h c
    assume "map_of cbh h = Some c" "name c \<noteq> []" "name c \<noteq> ''Unnamed''"
    with e obtain c' where "c' \<in> set [sampleColor 0 ''Red'', sampleColor 15 ''Orange'']"
      and "name c' = name c" by blast
    then show "name c = ''Red'' \<or> name c = ''Orange''" by auto
  qed
  from r m' e' have "\<exists>cbh. resolveHues twoToneRemote 50 50 twoToneState = (Inr cbh, twoToneState) \<and>
         (\<exists>h. map_of cbh h = Some (sampleColor 15 ''Orange'') \<and>
            (\<forall>h' c'. map_of cbh h' = Some c' \<longrightarrow> name c' = ''Orange'' \<longrightarrow> h \<le> h')) \<and>
         (\<forall>h c. map_of cbh h = Some c \<longrightarrow> name c \<noteq> [] \<longrightarrow> name c \<noteq> ''Unnamed'' \<longrightarrow>
            name c = ''Red'' \<or> name c = ''Orange'')"
    by blast
  with run d show ?thesis by blast
qed

subsection \<open>C7: a second call\<close>

text \<open>
  C7. When a call has returned a list, a second call with the same saturation and lightness
  on the state the first call left returns the same list and leaves the state, and with it
  the log of requests, unchanged: it sends no request. Since nothing is asked of the remote,
  this holds whatever the remote would answer during the second call.
\<close>

theorem C7_second_call:
  assumes "fetchDistinctColors rem s l st = (Inr out, st1)"
  shows "fetchDistinctColors rem2 s l st1 = (Inr out, st1)"
proof -
  from fetchDistinctColors_success [OF assms] obtain cbh where
    r1: "resolveHues rem s l st = (Inr cbh, st1)" and out: "out = collectDistinct cbh" by blast
  from resolveHues_outcome [OF r1] have
    all: "\<forall>h\<in>set (neededHues s l (cache st1)). cache st1 (h, s, l) \<noteq> None" by blast
  from fetchDistinctColors_cached [OF all, of rem2] output_by_cache [OF assms]
  show ?thesis by simp
qed

text \<open>
  The witness: the first call finds hue 15 missing from the cache and requests it; the
  second call requests nothing.
\<close>

theorem C7_second_call_witness:
  "fetchDistinctColors twoToneRemote 50 50 almostState
     = (Inr [sampleColor 0 ''Red'', sampleColor 15 ''Orange''], completedState)
   \<and> calls almostState = [] \<and> calls completedState = [(15, 50, 50)]
   \<and> fetchDistinctColors twoToneRemote 50 50 completedState
     = (Inr [sampleColor 0 ''Red'', sampleColor 15 ''Orange''], completedState)"
  using C7_second_call [OF almost_run, of twoToneRemote] almost_run
  by (simp add: almostState_def completedState_def)

subsection \<open>C8: the red and orange scenario\<close>

text \<open>
  The walk of Phase 2 is cyclic. Whatever the other coarse points are, when every coarse
  point is resolved, point 0 is red and point 20 is orange, Phase 2 does not end with the
  single range from 10 to 20: going from 20 back to 0 the name has to change somewhere.
\<close>

lemma coarseHues_nth: "i < 36 \<Longrightarrow> coarseHues ! i = 10 * i"
  by (simp add: coarseHues_eq)

lemma boundaryAt_start: "r \<in> set (boundaryAt cbh hs i) \<Longrightarrow> range_start r = hs ! i"
  by (auto simp: boundaryAt_def Let_def split: option.splits if_splits)

lemma redOrange_never_one_range:
  assumes all: "\<forall>h\<in>set coarseHues. map_of cbh h \<noteq> None"
    and red: "map_option name (map_of cbh 0) = Some ''Red''"
    and orange: "map_option name (map_of cbh 20) = Some ''Orange''"
  shows "boundaryRanges cbh \<noteq> [\<lparr> range_start = 10, range_end = 20 \<rparr>]"
proof
  assume one: "boundaryRanges cbh = [\<lparr> range_start = 10, range_end = 20 \<rparr>]"
  have empty: "boundaryAt cbh coarseHues i = []" if "i < 36" "i \<noteq> 1" for i
  proof (rule ccontr)
    assume "boundaryAt cbh coarseHues i \<noteq> []"
    then obtain r where r: "r \<in> set (boundaryAt cbh coarseHues i)" by (cases "boundaryAt cbh coarseHues i") auto
    then have "r \<in> set (boundaryRanges cbh)"
      using that(1) by (auto simp: boundaryRanges_def coarseHues_eq)
    then have "range_start r = 10" unfolding one by simp
    moreover from boundaryAt_start [OF r] have "range_start r = 10 * i"
      using that(1) by (simp add: coarseHues_nth)
    ultimately show False using that(2) by simp
  qed
  have step: "map_option name (map_of cbh (10 * Suc i)) = Some ''Orange''"
    if "2 \<le> i" "i < 35" "map_option name (map_of cbh (10 * i)) = Some ''Orange''" for i
  proof -
    from that have i: "i < 36" "i \<noteq> 1" by simp_all
    have "Suc i < length coarseHues" using that(2) by (simp add: coarseHues_eq)
    from nth_mem [OF this] have "10 * Suc i \<in> set coarseHues"
      using that(2) by (simp add: coarseHues_nth)
    with all obtain n where n: "map_of cbh (10 * Suc i) = Some n" by auto
    from that(3) obtain c where c: "map_of cbh (10 * i) = Some c" "name c = ''Orange''" by auto
    have nx: "coarseHues ! ((i + 1) mod length coarseHues) = 10 * Suc i"
      using that(2) by (simp add: coarseHues_eq)
    have cur: "map_of cbh (coarseHues ! i) = Some c" using c i by (simp add: coarseHues_nth)
    have nxt: "map_of cbh (coarseHues ! ((i + 1) mod length coarseHues)) = Some n"
      unfolding nx using n .
    from empty [OF i] boundaryAt_iff [of cbh coarseHues i] cur nxt
    have "name c = ''Unnamed'' \<or> name c = name n" by auto
    with c n show ?thesis by simp
  qed
  have run: "2 \<le> i \<Longrightarrow> i \<le> 35 \<Longrightarrow> map_option name (map_of cbh (10 * i)) = Some ''Orange''" for i
  proof (induction i)
    case 0
    then show ?case by simp
  next
    case (Suc i)
    show ?case
    proof (cases "Suc i = 2")
      case True
      then show ?thesis using orange by simp
    next
      case False
      with Suc.prems have "2 \<le> i" "i < 35" by simp_all
      with Suc.IH have "map_option name (map_of cbh (10 * i)) = Some ''Orange''" by simp
      from step [OF \<open>2 \<le> i\<close> \<open>i < 35\<close> this] show ?thesis .
    qed
  qed
  have "map_option name (map_of cbh (10 * 35)) = Some ''Orange''" by (rule run) simp_all
  then obtain c where c: "map_of cbh 350 = Some c" "name c = ''Orange''" by auto
  from red obtain n where n: "map_of cbh 0 = Some n" "name n = ''Red''" by auto
  have e35: "boundaryAt cbh coarseHues 35 = []" by (rule empty) simp_all
  have cur: "map_of cbh (coarseHues ! 35) = Some c" using c by (simp add: coarseHues_nth)
  have "coarseHues ! ((35 + 1) mod length coarseHues) = 0" by (simp add: coarseHues_eq)
  then have nxt: "map_of cbh (coarseHues ! ((35 + 1) mod length coarseHues)) = Some n"
    using n by simp
  from e35 boundaryAt_iff [of cbh coarseHues 35] cur nxt
  have "name c = ''Unnamed'' \<or> name c = name n" by auto
  with c n show False by simp
qed

text \<open>
  C8, as stated, fails. When the coarse points 0 and 10 are red and the coarse point 20 is
  orange, the names cannot agree on every other adjacent pair, since the pair 350, 0 closes
  the cycle (\<open>redOrange_never_one_range\<close>). With every coarse point from 20 on orange,
  which makes all adjacent pairs but 10, 20 and 350, 0 agree, Phase 2 records two ranges,
  from 10 to 20 and from 350 to 0, and Phase 3 requests the hues 11 to 19 and then the hues
  351 to 359.
\<close>

theorem C8_one_range_counterexample:
  "map (\<lambda>h. map_option name (cache coarseState (h, 50, 50))) [0, 10, 20, 350]
     = [Some ''Red'', Some ''Red'', Some ''Orange'', Some ''Orange'']
   \<and> boundaryRanges (cachedCoarse 50 50 (cache coarseState))
     = [\<lparr> range_start = 10, range_end = 20 \<rparr>, \<lparr> range_start = 350, range_end = 0 \<rparr>]
   \<and> (\<exists>out. fetchDistinctColors twoToneRemote 50 50 coarseState = (Inr out, refinedState))
   \<and> map fst (calls refinedState)
     = [11, 12, 13, 14, 15, 16, 17, 18, 19, 351, 352, 353, 354, 355, 356, 357, 358, 359]"
proof -
  have "map (\<lambda>h. map_option name (cache coarseState (h, 50, 50))) [0, 10, 20, 350]
     = [Some ''Red'', Some ''Red'', Some ''Orange'', Some ''Orange'']"
    by (simp add: coarseState_def twoTone_def)
  moreover from refined_run have "\<exists>out. fetchDistinctColors twoToneRemote 50 50 coarseState = (Inr out, refinedState)"
    by (auto simp: fetchDistinctColors_def)
  moreover have "map fst (calls refinedState)
     = [11, 12, 13, 14, 15, 16, 17, 18, 19, 351, 352, 353, 354, 355, 356, 357, 358, 359]"
    by (simp add: refinedState_def)
  ultimately show ?thesis using coarseState_ranges by blast
qed

lemma outcome_calls: "outcome rem st err st' new \<Longrightarrow> calls st' = calls st @ new"
  by (simp add: outcome_def extends_def)

lemma redOrange_ranges:
  assumes "\<forall>h\<in>set coarseHues. \<exists>c. map_of cbh h = Some c \<and> name c = (if h < 20 then ''Red'' else ''Orange'')"
  shows "boundaryRanges cbh = [\<lparr> range_start = 10, range_end = 20 \<rparr>, \<lparr> range_start = 350, range_end = 0 \<rparr>]"
  unfolding boundaryRanges_by_name [OF assms] by (simp add: coarseHues_list)

lemma take_filter_append: "take n xs = take (min n (length xs)) (xs @ ys)"
  by (cases "n \<le> length xs") (simp_all add: min_def)

lemma refine_two_calls:
  assumes dA: "distinct L1" and dB: "distinct L2" and disj: "set L1 \<inter> set L2 = {}"
    and ne: "L1 \<noteq> []" "L2 \<noteq> []"
    and fills: "fillHues rA = L1" "fillHues rB = L2"
    and p3: "refineRanges rem s l [rA, rB] cbh1 st1 = (res, st2)"
  shows "(\<exists>n. calls st2 = calls st1 @ map (\<lambda>h. (h, s, l)) (take n (filter (\<lambda>h. cache st1 (h, s, l) = None) (L1 @ L2)))) \<and>
         (\<forall>cbh2. res = Inr cbh2 \<longrightarrow>
            calls st2 = calls st1 @ map (\<lambda>h. (h, s, l)) (filter (\<lambda>h. cache st1 (h, s, l) = None) (L1 @ L2)))"
proof -
  let ?K = "\<lambda>h. (h, s, l)"
  let ?unc = "\<lambda>h. cache st1 (h, s, l) = None"
  obtain r1 stA where bA: "fetchBatch rem s l L1 cbh1 st1 = (r1, stA)"
    by (cases "fetchBatch rem s l L1 cbh1 st1") auto
  note oA = fetchBatch_outcome [OF dA bA]
  show ?thesis
  proof (cases r1)
    case (Inl e)
    then have eq: "res = Inl e" "st2 = stA"
      using p3 bA ne by (simp_all add: fills)
    from oA obtain n where "outcome rem st1 (Some e) stA (map ?K (take n (filter ?unc L1)))"
      unfolding Inl by auto
    then have "calls stA = calls st1 @ map ?K (take n (filter ?unc L1))" by (rule outcome_calls)
    also have "take n (filter ?unc L1) = take (min n (length (filter ?unc L1))) (filter ?unc (L1 @ L2))"
      unfolding filter_append by (rule take_filter_append)
    finally show ?thesis unfolding eq by blast
  next
    case (Inr cbhA)
    from oA have o1: "outcome rem st1 None stA (map ?K (filter ?unc L1))"
      unfolding Inr by simp
    then have cA: "calls stA = calls st1 @ map ?K (filter ?unc L1)" by (rule outcome_calls)
    have rec: "fetchBatch rem s l L2 cbhA stA = (res, st2)"
    proof -
      obtain rB' stB where bB: "fetchBatch rem s l L2 cbhA stA = (rB', stB)"
        by (cases "fetchBatch rem s l L2 cbhA stA") auto
      then show ?thesis using p3 bA Inr ne
        by (cases rB') (simp_all add: fills)
    qed
    note oB = fetchBatch_outcome [OF dB rec]
    have same: "filter (\<lambda>h. cache stA (h, s, l) = None) L2 = filter ?unc L2"
    proof (rule filter_cong [OF refl])
      fix h assume "h \<in> set L2"
      then have "h \<notin> set L1" using disj by auto
      then have nk: "(h, s, l) \<notin> set (map ?K (filter ?unc L1))" by auto
      from o1 have "extends rem st1 stA (map ?K (filter ?unc L1))" by (simp add: outcome_def)
      from extends_unchanged [OF this nk] have "cache stA (h, s, l) = cache st1 (h, s, l)" .
      then show "(cache stA (h, s, l) = None) = (cache st1 (h, s, l) = None)" by simp
    qed
    show ?thesis
    proof (cases res)
      case (Inl e)
      from oB obtain n where "outcome rem stA (Some e) st2 (map ?K (take n (filter ?unc L2)))"
        unfolding Inl same by auto
      then have "calls st2 = calls stA @ map ?K (take n (filter ?unc L2))" by (rule outcome_calls)
      then have "calls st2 = calls st1 @ map ?K (filter ?unc L1 @ take n (filter ?unc L2))"
        unfolding cA by simp
      also have "filter ?unc L1 @ take n (filter ?unc L2)
                 = take (length (filter ?unc L1) + n) (filter ?unc (L1 @ L2))"
        unfolding filter_append by simp
      finally show ?thesis using Inl by blast
    next
      case (Inr cbh2)
      from oB have "outcome rem stA None st2 (map ?K (filter ?unc L2))"
        unfolding Inr same by simp
      then have "calls st2 = calls stA @ map ?K (filter ?unc L2)" by (rule outcome_calls)
      then have all: "calls st2 = calls st1 @ map ?K (filter ?unc (L1 @ L2))"
        unfolding cA by simp
      then have "calls st2 = calls st1 @ map ?K (take (length (filter ?unc (L1 @ L2))) (filter ?unc (L1 @ L2)))"
        by simp
      with all show ?thesis by blast
    qed
  qed
qed

text \<open>
  C8, amended. If the coarse phase yields red at 0 and 10 and orange at every coarse point
  from 20 on, then Phase 2 records exactly the two ranges from 10 to 20 and from 350 to 0,
  and Phase 3 sends requests for the hues 11 to 19 and 351 to 359 that are not cached, in
  this order, and for no other hue: all of them when it succeeds, an initial part of them
  when a request fails.
\<close>

theorem C8_two_ranges:
  assumes p1: "fetchBatch rem s l coarseHues [] st = (Inr cbh1, st1)"
    and names: "\<forall>h\<in>set coarseHues. \<exists>c. map_of cbh1 h = Some c \<and>
                  name c = (if h < 20 then ''Red'' else ''Orange'')"
    and run: "resolveHues rem s l st = (res, st2)"
  shows "boundaryRanges cbh1 = [\<lparr> range_start = 10, range_end = 20 \<rparr>, \<lparr> range_start = 350, range_end = 0 \<rparr>] \<and>
         (\<exists>n. calls st2 = calls st1 @ map (\<lambda>h. (h, s, l)) (take n (filter (\<lambda>h. cache st1 (h, s, l) = None)
                  ([11, 12, 13, 14, 15, 16, 17, 18, 19] @ [351, 352, 353, 354, 355, 356, 357, 358, 359])))) \<and>
         (\<forall>cbh2. res = Inr cbh2 \<longrightarrow>
            calls st2 = calls st1 @ map (\<lambda>h. (h, s, l)) (filter (\<lambda>h. cache st1 (h, s, l) = None)
                  ([11, 12, 13, 14, 15, 16, 17, 18, 19] @ [351, 352, 353, 354, 355, 356, 357, 358, 359])))"
proof -
  have ranges: "boundaryRanges cbh1 = [\<lparr> range_start = 10, range_end = 20 \<rparr>, \<lparr> range_start = 350, range_end = 0 \<rparr>]"
    using names by (rule redOrange_ranges)
  have p3: "refineRanges rem s l [\<lparr> range_start = 10, range_end = 20 \<rparr>, \<lparr> range_start = 350, range_end = 0 \<rparr>] cbh1 st1
              = (res, st2)"
    using run p1 by (simp add: resolveHues_def ranges)
  have "distinct [11, 12, 13, 14, 15, 16, 17, 18, 19 :: nat]"
    "distinct [351, 352, 353, 354, 355, 356, 357, 358, 359 :: nat]"
    "set [11, 12, 13, 14, 15, 16, 17, 18, 19 :: nat] \<inter> set [351, 352, 353, 354, 355, 356, 357, 358, 359] = {}"
    "[11, 12, 13, 14, 15, 16, 17, 18, 19 :: nat] \<noteq> []" "[351, 352, 353, 354, 355, 356, 357, 358, 359 :: nat] \<noteq> []"
    by simp_all
  from refine_two_calls [OF this fill_10_20 fill_350_0 p3] ranges show ?thesis by blast
qed

theorem C8_two_ranges_witness:
  "boundaryRanges (cachedCoarse 50 50 (cache coarseState))
     = [\<lparr> range_start = 10, range_end = 20 \<rparr>, \<lparr> range_start = 350, range_end = 0 \<rparr>]
   \<and> calls refinedState = calls coarseState @ map (\<lambda>h. (h, 50, 50))
        (filter (\<lambda>h. cache coarseState (h, 50, 50) = None)
           ([11, 12, 13, 14, 15, 16, 17, 18, 19] @ [351, 352, 353, 354, 355, 356, 357, 358, 359]))"
proof -
  have p1: "fetchBatch twoToneRemote 50 50 coarseHues [] coarseState
              = (Inr (cachedCoarse 50 50 (cache coarseState)), coarseState)"
    by (rule fetchBatch_coarse_cached [OF coarseState_coarse])
  have names: "\<forall>h\<in>set coarseHues. \<exists>c. map_of (cachedCoarse 50 50 (cache coarseState)) h = Some c \<and>
                  name c = (if h < 20 then ''Red'' else ''Orange'')"
    unfolding map_of_cachedCoarse by (simp add: coarseHues_list coarseState_def twoTone_def)
  from refined_run obtain cbh where run: "resolveHues twoToneRemote 50 50 coarseState = (Inr cbh, refinedState)"
    by blast
  from C8_two_ranges [OF p1 names run] show ?thesis by blast
qed

subsection \<open>C9: names are never empty\<close>

lemma nameOrUnnamed_nonempty: "nameOrUnnamed v \<noteq> []"
  by (simp add: nameOrUnnamed_def split: option.splits)

lemma colorDataOf_named: "colorDataOf h s l out = Inr c \<Longrightarrow> name c \<noteq> []"
  by (auto simp: colorDataOf_def nameOrUnnamed_nonempty
      split: fetchOutcome.splits if_splits jsonBody.splits option.splits)

lemma stored_named: "stored rem k = Some c \<Longrightarrow> name c \<noteq> []"
  by (cases k) (auto simp: stored_def lookup_def split: sum.splits dest: colorDataOf_named)

lemma extends_named: "extends rem st st' new \<Longrightarrow> cacheNamed st \<Longrightarrow> cacheNamed st'"
  unfolding cacheNamed_def extends_def by (auto dest: stored_named split: if_splits)

lemma colorDataOf_name:
  assumes "colorDataOf h s l out = Inr c"
  shows "\<exists>status d nv. out = Response status (JsonData d) \<and> data_name d = Some nv \<and> name c = nameOrUnnamed nv"
  using assms
  by (auto simp: colorDataOf_def split: fetchOutcome.splits if_splits jsonBody.splits option.splits)

text \<open>
  C9. Started in a state whose cached colours all have a non-empty name (the empty cache of
  a fresh module among them), \<^verbatim>\<open>fetchColorData\<close> returns only colours with a non-empty
  name and leaves such a state. When it had to ask the remote, the name of the result is
  the sentinel \<^verbatim>\<open>Unnamed\<close> if the name value of the answer is missing or empty, and the
  name value otherwise. The same holds for the map of resolved points of a whole call:
  every colour in it has a non-empty name.
\<close>

theorem C9_names_nonempty:
  assumes inv: "cacheNamed st"
    and run: "fetchColorData rem h s l st = (Inr c, st')"
  shows "name c \<noteq> [] \<and> cacheNamed st' \<and>
         (cache st (h, s, l) = None \<longrightarrow>
            (\<exists>status d nv. rem (h, s, l) = Response status (JsonData d) \<and> data_name d = Some nv \<and>
               ((nv = None \<or> nv = Some []) \<longrightarrow> name c = ''Unnamed'') \<and>
               (\<forall>n. nv = Some n \<longrightarrow> n \<noteq> [] \<longrightarrow> name c = n))) \<and>
         (\<forall>cbh st2. resolveHues rem s l st = (Inr cbh, st2) \<longrightarrow>
            cacheNamed st2 \<and> (\<forall>h' c'. map_of cbh h' = Some c' \<longrightarrow> name c' \<noteq> []))"
proof -
  have result: "name c \<noteq> [] \<and> cacheNamed st' \<and>
         (cache st (h, s, l) = None \<longrightarrow>
            (\<exists>status d nv. rem (h, s, l) = Response status (JsonData d) \<and> data_name d = Some nv \<and>
               ((nv = None \<or> nv = Some []) \<longrightarrow> name c = ''Unnamed'') \<and>
               (\<forall>n. nv = Some n \<longrightarrow> n \<noteq> [] \<longrightarrow> name c = n)))"
  proof (cases "cache st (h, s, l)")
    case (Some v)
    then have "c = v" "st' = st" using run
      by (simp_all add: fetchColorData_def fetchColorData_start_def fetchColorData_settle_def)
    then show ?thesis using inv Some by (auto simp: cacheNamed_def)
  next
    case None
    then have cd: "colorDataOf h s l (rem (h, s, l)) = Inr c"
      and st': "cache st' = (cache st)((h, s, l) \<mapsto> c)"
      using run
      by (auto simp: fetchColorData_def fetchColorData_start_def fetchColorData_settle_def
          split: sum.splits)
    from colorDataOf_named [OF cd] have n: "name c \<noteq> []" .
    have "cacheNamed st'" using inv n unfolding cacheNamed_def st' by auto
    moreover from colorDataOf_name [OF cd] obtain status d nv where
      "rem (h, s, l) = Response status (JsonData d)" "data_name d = Some nv" "name c = nameOrUnnamed nv"
      by blast
    then have "\<exists>status d nv. rem (h, s, l) = Response status (JsonData d) \<and> data_name d = Some nv \<and>
               ((nv = None \<or> nv = Some []) \<longrightarrow> name c = ''Unnamed'') \<and>
               (\<forall>n. nv = Some n \<longrightarrow> n \<noteq> [] \<longrightarrow> name c = n)"
      by (auto simp: nameOrUnnamed_def)
    ultimately show ?thesis using n by blast
  qed
  have session: "cacheNamed st2 \<and> (\<forall>h' c'. map_of cbh h' = Some c' \<longrightarrow> name c' \<noteq> [])"
    if r: "resolveHues rem s l st = (Inr cbh, st2)" for cbh st2
  proof -
    from resolveHues_outcome [OF r] obtain new where
      o: "outcome rem st (errorOf (Inr cbh :: error + colorsByHue)) st2 new"
      and m: "map_of cbh = (\<lambda>h. if h \<in> set (neededHues s l (cache st2)) then cache st2 (h, s, l) else None)"
      by blast
    from o have "extends rem st st2 new" by (simp add: outcome_def)
    from extends_named [OF this inv] have named: "cacheNamed st2" .
    then have "\<forall>h' c'. map_of cbh h' = Some c' \<longrightarrow> name c' \<noteq> []"
      unfolding m cacheNamed_def by (auto split: if_splits)
    with named show ?thesis by blast
  qed
  from result session show ?thesis by blast
qed

theorem C9_names_nonempty_witness:
  "cacheNamed emptyState
   \<and> fetchColorData namelessRemote 5 50 50 emptyState
     = (Inr (sampleColor 5 ''Unnamed''),
        emptyState\<lparr>calls := [(5, 50, 50)], cache := [(5, 50, 50) \<mapsto> sampleColor 5 ''Unnamed'']\<rparr>)
   \<and> name (sampleColor 5 ''Unnamed'') \<noteq> []
   \<and> cacheNamed (emptyState\<lparr>calls := [(5, 50, 50)], cache := [(5, 50, 50) \<mapsto> sampleColor 5 ''Unnamed'']\<rparr>)"
proof -
  have inv: "cacheNamed emptyState" by (simp add: cacheNamed_def emptyState_def)
  have run: "fetchColorData namelessRemote 5 50 50 emptyState
     = (Inr (sampleColor 5 ''Unnamed''),
        emptyState\<lparr>calls := [(5, 50, 50)], cache := [(5, 50, 50) \<mapsto> sampleColor 5 ''Unnamed'']\<rparr>)"
    by (simp add: fetchColorData_def fetchColorData_start_def fetchColorData_settle_def emptyState_def
        namelessRemote_def colorDataOf_def response_ok_def nameOrUnnamed_def sampleColor_def)
  from C9_names_nonempty [OF inv run] inv run show ?thesis by blast
qed

subsection \<open>C10: a call that finds everything in the cache\<close>

text \<open>
  C10. When the cache holds every coarse point and every interior point of the boundary
  ranges that these coarse points give, the call sends no request and returns its list
  whatever the remote would do, and leaves the state unchanged. The signal reaches only
  \<^verbatim>\<open>fetch\<close>, so a token cancelled before the call, for which every request would be
  aborted, gives the same list.
\<close>

theorem C10_fully_cached:
  assumes "\<forall>h\<in>set (neededHues s l (cache st)). cache st (h, s, l) \<noteq> None"
  shows "\<exists>out. fetchDistinctColors rem s l st = (Inr out, st) \<and>
               fetchDistinctColors cancelled s l st = (Inr out, st)"
  using fetchDistinctColors_cached [OF assms, of rem] fetchDistinctColors_cached [OF assms, of cancelled]
  by simp

theorem C10_fully_cached_witness:
  "fetchDistinctColors cancelled 50 50 twoToneState
     = (Inr [sampleColor 0 ''Red'', sampleColor 15 ''Orange''], twoToneState)
   \<and> cancelled (0, 50, 50) = Aborted"
proof -
  have "\<forall>h\<in>set (neededHues 50 50 (cache twoToneState)). cache twoToneState (h, 50, 50) \<noteq> None"
    by (auto simp: twoToneState_def dest: neededHues_less)
  from C10_fully_cached [OF this, of twoToneRemote] obtain out where
    a: "fetchDistinctColors twoToneRemote 50 50 twoToneState = (Inr out, twoToneState)"
    and b: "fetchDistinctColors cancelled 50 50 twoToneState = (Inr out, twoToneState)" by blast
  from a twoToneState_run [of twoToneRemote] have "out = [sampleColor 0 ''Red'', sampleColor 15 ''Orange'']"
    by simp
  with b show ?thesis by (simp add: cancelled_def)
qed

end
